theory Spec2Isabelle
  imports Main "HOL-Library.Word" "HOL-Library.Monad_Syntax"
begin

section \<open>Value types (include/ces/common/types.hpp)\<close>

text \<open>
  \<open>Price\<close> and \<open>Qty\<close> wrap \<open>std::int64_t\<close>, \<open>OrderId\<close> wraps \<open>std::uint64_t\<close>,
  \<open>TraderId\<close> and pool indices are \<open>std::uint32_t\<close>.  They are modelled as machine
  words: \<open>+\<close>, \<open>-\<close> and \<open>*\<close> wrap around, signed comparisons are \<open><s\<close> and \<open><=s\<close>,
  unsigned ones \<open><\<close> and \<open>\<le>\<close>.
\<close>

type_synonym Price = "64 word"
type_synonym Qty = "64 word"
type_synonym OrderId = "64 word"
type_synonym TraderId = "32 word"

definition INVALID_POOL_INDEX :: "32 word" where
  "INVALID_POOL_INDEX = - 1"

definition INVALID_ORDER_ID :: "64 word" where
  "INVALID_ORDER_ID = - 1"

definition INVALID_TRADER_ID :: "32 word" where
  "INVALID_TRADER_ID = - 1"

datatype Side = Buy | Sell

fun opposite :: "Side \<Rightarrow> Side" where
  "opposite s = (if s = Buy then Sell else Buy)"

datatype OrderType = NewLimit | NewMarket | Cancel | Modify

datatype OrderResult =
  Accepted | PartiallyFilled | FullyFilled | Cancelled | Modified | Rejected | NotFound

section \<open>Orders, events, trades, responses (include/ces/lob/order.hpp)\<close>

text \<open>
  The \<open>timestamp\<close> fields of \<open>Order\<close> and \<open>Trade\<close> and the \<open>enqueue_time\<close> of
  \<open>OrderEvent\<close> are read from the clock and never influence control flow; they are
  left out.
\<close>

record Order =
  order_id :: OrderId
  trader_id :: TraderId
  side :: Side
  price :: Price
  qty_remaining :: Qty
  qty_original :: Qty
  next_idx :: "32 word"
  prev_idx :: "32 word"

text \<open>The constructor \<open>Order(id, trader, s, p, qty)\<close>.\<close>

definition new_Order :: "OrderId \<Rightarrow> TraderId \<Rightarrow> Side \<Rightarrow> Price \<Rightarrow> Qty \<Rightarrow> Order" where
  "new_Order oid trader s p q =
     \<lparr>Order.order_id = oid, Order.trader_id = trader, Order.side = s, Order.price = p,
      qty_remaining = q, qty_original = q,
      next_idx = INVALID_POOL_INDEX, prev_idx = INVALID_POOL_INDEX\<rparr>"

record OrderEvent =
  type :: OrderType
  order_id :: OrderId
  trader_id :: TraderId
  side :: Side
  price :: Price
  qty :: Qty

definition ev_new_limit :: "OrderId \<Rightarrow> TraderId \<Rightarrow> Side \<Rightarrow> Price \<Rightarrow> Qty \<Rightarrow> OrderEvent" where
  "ev_new_limit oid trader s p q =
     \<lparr>type = NewLimit, OrderEvent.order_id = oid, OrderEvent.trader_id = trader,
      OrderEvent.side = s, OrderEvent.price = p, OrderEvent.qty = q\<rparr>"

definition ev_new_market :: "OrderId \<Rightarrow> TraderId \<Rightarrow> Side \<Rightarrow> Qty \<Rightarrow> OrderEvent" where
  "ev_new_market oid trader s q =
     \<lparr>type = NewMarket, OrderEvent.order_id = oid, OrderEvent.trader_id = trader,
      OrderEvent.side = s, OrderEvent.price = 0, OrderEvent.qty = q\<rparr>"

definition ev_cancel :: "OrderId \<Rightarrow> OrderEvent" where
  "ev_cancel oid =
     \<lparr>type = Cancel, OrderEvent.order_id = oid, OrderEvent.trader_id = INVALID_TRADER_ID,
      OrderEvent.side = Buy, OrderEvent.price = 0, OrderEvent.qty = 0\<rparr>"

definition ev_modify :: "OrderId \<Rightarrow> Qty \<Rightarrow> Price \<Rightarrow> OrderEvent" where
  "ev_modify oid new_qty new_price =
     \<lparr>type = Modify, OrderEvent.order_id = oid, OrderEvent.trader_id = INVALID_TRADER_ID,
      OrderEvent.side = Buy, OrderEvent.price = new_price, OrderEvent.qty = new_qty\<rparr>"

record Trade =
  maker_order_id :: OrderId
  taker_order_id :: OrderId
  maker_trader_id :: TraderId
  taker_trader_id :: TraderId
  price :: Price
  qty :: Qty
  taker_side :: Side

text \<open>The constructor \<open>Trade(maker_oid, taker_oid, maker_tid, taker_tid, p, q, taker_s)\<close>.\<close>

definition new_Trade ::
  "OrderId \<Rightarrow> OrderId \<Rightarrow> TraderId \<Rightarrow> TraderId \<Rightarrow> Price \<Rightarrow> Qty \<Rightarrow> Side \<Rightarrow> Trade" where
  "new_Trade maker_oid taker_oid maker_tid taker_tid p q taker_s =
     \<lparr>maker_order_id = maker_oid, taker_order_id = taker_oid,
      maker_trader_id = maker_tid, taker_trader_id = taker_tid,
      Trade.price = p, Trade.qty = q, taker_side = taker_s\<rparr>"

text \<open>\<open>trade_count\<close> is a \<open>std::size_t\<close> that counts the fills of one call; it is a \<open>nat\<close>.\<close>

record OrderResponse =
  result :: OrderResult
  order_id :: OrderId
  qty_filled :: Qty
  qty_remaining :: Qty
  trade_count :: nat

text \<open>The default member initialisers of \<open>OrderResponse\<close>, with \<open>order_id\<close> assigned.\<close>

definition new_response :: "OrderId \<Rightarrow> OrderResponse" where
  "new_response oid =
     \<lparr>result = Rejected, OrderResponse.order_id = oid, qty_filled = 0,
      OrderResponse.qty_remaining = 0, trade_count = 0\<rparr>"

definition success :: "OrderResponse \<Rightarrow> bool" where
  "success r = (result r \<noteq> Rejected \<and> result r \<noteq> NotFound)"

section \<open>Accounts (include/ces/engine/accounts.hpp, src/engine/accounts.cpp)\<close>

text \<open>
  \<open>balance\<close> and \<open>position\<close> are \<open>std::atomic<std::int64_t>\<close>, \<open>trade_count\<close> and
  \<open>volume\<close> are \<open>std::atomic<std::uint64_t\<close>>: \<open>fetch_add\<close> and \<open>fetch_sub\<close> wrap.
  The table is the vector \<open>accounts_\<close> in insertion order; the stripe mutexes guard
  interleavings only and have no sequential effect.
\<close>

record Account =
  trader_id :: TraderId
  balance :: "64 word"
  position :: "64 word"
  trade_count :: "64 word"
  volume :: "64 word"

definition new_Account :: "TraderId \<Rightarrow> 64 word \<Rightarrow> Account" where
  "new_Account tid initial_balance =
     \<lparr>Account.trader_id = tid, balance = initial_balance, position = 0,
      Account.trade_count = 0, volume = 0\<rparr>"

record Accounts =
  accounts :: "Account list"
  max_traders :: nat

definition new_Accounts :: "nat \<Rightarrow> Accounts" where
  "new_Accounts n = \<lparr>accounts = [], max_traders = n\<rparr>"

text \<open>\<open>Accounts::get\<close>: the position of the first account with this trader id.\<close>

fun find_account :: "Account list \<Rightarrow> TraderId \<Rightarrow> nat option" where
  "find_account [] tid = None"
| "find_account (a # as) tid =
     (if Account.trader_id a = tid then Some 0 else map_option Suc (find_account as tid))"

definition get :: "Accounts \<Rightarrow> TraderId \<Rightarrow> Account option" where
  "get A tid = map_option (\<lambda>i. accounts A ! i) (find_account (accounts A) tid)"

definition get_or_create :: "Accounts \<Rightarrow> TraderId \<Rightarrow> 64 word \<Rightarrow> Accounts" where
  "get_or_create A tid initial_balance =
     (case find_account (accounts A) tid of
        Some i \<Rightarrow> A
      | None \<Rightarrow>
          if max_traders A \<le> length (accounts A) then A
          else A\<lparr>accounts := accounts A @ [new_Account tid initial_balance]\<rparr>)"

text \<open>
  An update through the pointer that \<open>get\<close> returned: the first account with the id
  is changed in place.
\<close>

definition update_account :: "Accounts \<Rightarrow> TraderId \<Rightarrow> (Account \<Rightarrow> Account) \<Rightarrow> Accounts" where
  "update_account A tid f =
     (case find_account (accounts A) tid of
        None \<Rightarrow> A
      | Some i \<Rightarrow> A\<lparr>accounts := (accounts A)[i := f (accounts A ! i)]\<rparr>)"

definition apply_trade :: "Accounts \<Rightarrow> TraderId \<Rightarrow> TraderId \<Rightarrow> Side \<Rightarrow> Price \<Rightarrow> Qty \<Rightarrow> Accounts" where
  "apply_trade A maker_id taker_id tside p q =
     (if get A maker_id = None \<or> get A taker_id = None then A
      else
        let notional = p * q;
            qty_val = q;
            A1 = (if tside = Buy then
                    let B1 = update_account A taker_id (\<lambda>a. a\<lparr>balance := balance a - notional\<rparr>);
                        B2 = update_account B1 taker_id (\<lambda>a. a\<lparr>position := position a + qty_val\<rparr>);
                        B3 = update_account B2 maker_id (\<lambda>a. a\<lparr>balance := balance a + notional\<rparr>)
                    in update_account B3 maker_id (\<lambda>a. a\<lparr>position := position a - qty_val\<rparr>)
                  else
                    let B1 = update_account A taker_id (\<lambda>a. a\<lparr>balance := balance a + notional\<rparr>);
                        B2 = update_account B1 taker_id (\<lambda>a. a\<lparr>position := position a - qty_val\<rparr>);
                        B3 = update_account B2 maker_id (\<lambda>a. a\<lparr>balance := balance a - notional\<rparr>)
                    in update_account B3 maker_id (\<lambda>a. a\<lparr>position := position a + qty_val\<rparr>));
            A2 = update_account A1 maker_id (\<lambda>a. a\<lparr>Account.trade_count := Account.trade_count a + 1\<rparr>);
            A3 = update_account A2 maker_id (\<lambda>a. a\<lparr>volume := volume a + qty_val\<rparr>);
            A4 = update_account A3 taker_id (\<lambda>a. a\<lparr>Account.trade_count := Account.trade_count a + 1\<rparr>)
        in update_account A4 taker_id (\<lambda>a. a\<lparr>volume := volume a + qty_val\<rparr>))"

definition has_sufficient_balance :: "Accounts \<Rightarrow> TraderId \<Rightarrow> 64 word \<Rightarrow> bool" where
  "has_sufficient_balance A tid required_amount =
     (case get A tid of None \<Rightarrow> False | Some acc \<Rightarrow> required_amount <=s balance acc)"

definition get_balance :: "Accounts \<Rightarrow> TraderId \<Rightarrow> 64 word" where
  "get_balance A tid = (case get A tid of None \<Rightarrow> 0 | Some acc \<Rightarrow> balance acc)"

definition get_position :: "Accounts \<Rightarrow> TraderId \<Rightarrow> 64 word" where
  "get_position A tid = (case get A tid of None \<Rightarrow> 0 | Some acc \<Rightarrow> position acc)"

section \<open>Risk gate (include/ces/engine/risk.hpp)\<close>

record RiskConfig =
  max_order_value :: "64 word"
  max_position :: "64 word"
  max_order_qty :: Qty
  max_price :: Price
  min_price :: Price
  check_balance :: bool

definition default_RiskConfig :: RiskConfig where
  "default_RiskConfig =
     \<lparr>max_order_value = 1000000000, max_position = 1000000, max_order_qty = 100000,
      max_price = 1000000, min_price = 1, check_balance = True\<rparr>"

datatype RiskResult =
  Passed | InvalidPrice | InvalidQty | ExceedsMaxOrderValue | ExceedsMaxPosition
  | InsufficientBalance | UnknownTrader

text \<open>
  \<open>RiskChecker::check\<close>.  The member \<open>accounts_\<close> is a pointer that may be null: it is
  the \<open>Accounts option\<close> argument.
\<close>

definition check :: "RiskConfig \<Rightarrow> Accounts option \<Rightarrow> OrderEvent \<Rightarrow> RiskResult" where
  "check config accs event =
     (if type event = Cancel then Passed
      else if (type event = NewLimit \<or> type event = Modify)
              \<and> (OrderEvent.price event <s min_price config
                   \<or> max_price config <s OrderEvent.price event) then InvalidPrice
      else if OrderEvent.qty event <=s 0 \<or> max_order_qty config <s OrderEvent.qty event
        then InvalidQty
      else
        let notional = OrderEvent.price event * OrderEvent.qty event in
        if max_order_value config <s notional then ExceedsMaxOrderValue
        else if check_balance config \<and> accs \<noteq> None \<and> OrderEvent.side event = Buy
                \<and> \<not> has_sufficient_balance (the accs) (OrderEvent.trader_id event) notional
          then InsufficientBalance
        else Passed)"

section \<open>Object pool (include/ces/memory/object_pool.hpp)\<close>

text \<open>
  An \<open>Entry\<close> holds the storage of one object, the freelist link and the \<open>in_use\<close>
  flag.  The storage and the flag are one field here: \<open>slot e = Some x\<close> when the
  entry is in use and holds \<open>x\<close>, \<open>None\<close> when it is free.

  \<open>CES_ASSERT\<close> aborts in a debug build and is compiled out under \<open>NDEBUG\<close>
  (common/macros.hpp).  The assertions of the pool and of \<open>push_back\<close>, \<open>remove\<close> and
  \<open>remove_order_internal\<close> guard accesses to pool slots: where one of them fails, the
  debug build aborts and the build under \<open>NDEBUG\<close> reads a slot that is out of range
  or whose object has been destroyed, which is undefined.  In both builds such a run
  is \<open>None\<close>.  The assertion of \<open>reduce_qty\<close> guards no access: under \<open>NDEBUG\<close> the
  subtraction simply goes ahead.  The book operations therefore take the build as
  their first argument \<open>dbg\<close>: \<open>True\<close> for a build with assertions, \<open>False\<close> for a
  build under \<open>NDEBUG\<close>.  A result \<open>Some\<close> is a call that returns.
\<close>

record Entry =
  slot :: "Order option"
  next_free :: "32 word"

record ObjectPool =
  storage :: "32 word \<Rightarrow> Entry"
  free_head :: "32 word"
  capacity :: "32 word"
  pool_size :: "32 word"

definition new_ObjectPool :: "32 word \<Rightarrow> ObjectPool" where
  "new_ObjectPool cap =
     \<lparr>storage = (\<lambda>i. \<lparr>slot = None,
                         next_free = (if i < cap \<and> i + 1 < cap then i + 1
                                      else INVALID_POOL_INDEX)\<rparr>),
      free_head = (if 0 < cap then 0 else INVALID_POOL_INDEX),
      capacity = cap,
      pool_size = 0\<rparr>"

definition is_valid :: "ObjectPool \<Rightarrow> 32 word \<Rightarrow> bool" where
  "is_valid p i = (i < capacity p \<and> slot (storage p i) \<noteq> None)"

text \<open>\<open>operator[]\<close> with its two assertions.\<close>

definition pool_at :: "ObjectPool \<Rightarrow> 32 word \<Rightarrow> Order option" where
  "pool_at p i = (if i < capacity p then slot (storage p i) else None)"

text \<open>A write through the reference that \<open>operator[]\<close> returned.\<close>

definition pool_set :: "ObjectPool \<Rightarrow> 32 word \<Rightarrow> Order \<Rightarrow> ObjectPool" where
  "pool_set p i x = p\<lparr>storage := (storage p)(i := (storage p i)\<lparr>slot := Some x\<rparr>)\<rparr>"

definition allocate :: "ObjectPool \<Rightarrow> Order \<Rightarrow> ObjectPool \<times> 32 word" where
  "allocate p x =
     (if free_head p = INVALID_POOL_INDEX then (p, INVALID_POOL_INDEX)
      else
        let idx = free_head p;
            entry = storage p idx
        in (p\<lparr>storage := (storage p)(idx := entry\<lparr>slot := Some x\<rparr>),
              free_head := next_free entry,
              pool_size := pool_size p + 1\<rparr>, idx))"

definition deallocate :: "ObjectPool \<Rightarrow> 32 word \<Rightarrow> ObjectPool option" where
  "deallocate p i =
     (if i < capacity p \<and> slot (storage p i) \<noteq> None
      then Some (p\<lparr>storage := (storage p)(i := \<lparr>slot = None, next_free = free_head p\<rparr>),
                   free_head := i,
                   pool_size := pool_size p - 1\<rparr>)
      else None)"

section \<open>Price level (include/ces/lob/price_level.hpp)\<close>

record PriceLevel =
  price :: Price
  total_qty :: Qty
  order_count :: "32 word"
  head_idx :: "32 word"
  tail_idx :: "32 word"

definition new_PriceLevel :: "Price \<Rightarrow> PriceLevel" where
  "new_PriceLevel p =
     \<lparr>PriceLevel.price = p, total_qty = 0, order_count = 0,
      head_idx = INVALID_POOL_INDEX, tail_idx = INVALID_POOL_INDEX\<rparr>"

definition empty :: "PriceLevel \<Rightarrow> bool" where
  "empty l = (order_count l = 0)"

definition front_idx :: "PriceLevel \<Rightarrow> 32 word" where
  "front_idx l = head_idx l"

text \<open>
  \<open>push_back\<close> and \<open>remove\<close> work on references into the pool.  Each read below is
  made from the pool as the preceding writes left it, so that aliased indices behave
  as in the source.
\<close>

definition push_back :: "ObjectPool \<Rightarrow> PriceLevel \<Rightarrow> 32 word \<Rightarrow> (ObjectPool \<times> PriceLevel) option" where
  "push_back p l order_idx =
     (case pool_at p order_idx of
        None \<Rightarrow> None
      | Some ord \<Rightarrow>
          let p1 = pool_set p order_idx
                     (ord\<lparr>prev_idx := tail_idx l, next_idx := INVALID_POOL_INDEX\<rparr>)
          in (case (if tail_idx l \<noteq> INVALID_POOL_INDEX
                    then map_option
                           (\<lambda>t. (pool_set p1 (tail_idx l) (t\<lparr>next_idx := order_idx\<rparr>), l))
                           (pool_at p1 (tail_idx l))
                    else Some (p1, l\<lparr>head_idx := order_idx\<rparr>)) of
                None \<Rightarrow> None
              | Some (p2, l1) \<Rightarrow>
                  (case pool_at p2 order_idx of
                     None \<Rightarrow> None
                   | Some ord2 \<Rightarrow>
                       Some (p2, l1\<lparr>tail_idx := order_idx,
                                    total_qty := total_qty l1 + Order.qty_remaining ord2,
                                    order_count := order_count l1 + 1\<rparr>))))"

definition remove :: "ObjectPool \<Rightarrow> PriceLevel \<Rightarrow> 32 word \<Rightarrow> (ObjectPool \<times> PriceLevel) option" where
  "remove p l order_idx =
     (case pool_at p order_idx of
        None \<Rightarrow> None
      | Some ord \<Rightarrow>
          (case (if prev_idx ord \<noteq> INVALID_POOL_INDEX
                 then map_option
                        (\<lambda>pr. (pool_set p (prev_idx ord) (pr\<lparr>next_idx := next_idx ord\<rparr>), l))
                        (pool_at p (prev_idx ord))
                 else Some (p, l\<lparr>head_idx := next_idx ord\<rparr>)) of
             None \<Rightarrow> None
           | Some (p1, l1) \<Rightarrow>
               (case pool_at p1 order_idx of
                  None \<Rightarrow> None
                | Some ord1 \<Rightarrow>
                    (case (if next_idx ord1 \<noteq> INVALID_POOL_INDEX
                           then map_option
                                  (\<lambda>nx. (pool_set p1 (next_idx ord1)
                                            (nx\<lparr>prev_idx := prev_idx ord1\<rparr>), l1))
                                  (pool_at p1 (next_idx ord1))
                           else Some (p1, l1\<lparr>tail_idx := prev_idx ord1\<rparr>)) of
                       None \<Rightarrow> None
                     | Some (p2, l2) \<Rightarrow>
                         (case pool_at p2 order_idx of
                            None \<Rightarrow> None
                          | Some ord2 \<Rightarrow>
                              Some (pool_set p2 order_idx
                                      (ord2\<lparr>prev_idx := INVALID_POOL_INDEX,
                                            next_idx := INVALID_POOL_INDEX\<rparr>),
                                    l2\<lparr>total_qty := total_qty l2 - Order.qty_remaining ord2,
                                       order_count := order_count l2 - 1\<rparr>))))))"

text \<open>\<open>CES_ASSERT(total_qty >= filled_qty)\<close> is checked in a build with assertions only.\<close>

definition reduce_qty :: "bool \<Rightarrow> PriceLevel \<Rightarrow> Qty \<Rightarrow> PriceLevel option" where
  "reduce_qty dbg l filled_qty =
     (if dbg \<and> \<not> filled_qty <=s total_qty l then None
      else Some (l\<lparr>total_qty := total_qty l - filled_qty\<rparr>))"

section \<open>Order book (include/ces/lob/order_book.hpp, src/lob/order_book.cpp)\<close>

text \<open>
  The mutex has no sequential effect and is left out.  The member \<open>trade_callback_\<close>
  is the argument \<open>cb\<close> of the operations: an optional observer that transforms a
  state \<open>'e\<close> outside the book, which the operations thread through in the order of
  the calls of \<open>emit_trade\<close>.
\<close>

record OrderBook =
  order_pool :: ObjectPool
  order_map :: "64 word \<rightharpoonup> 32 word"
  bids :: "PriceLevel list"
  asks :: "PriceLevel list"
  total_trades :: "64 word"
  total_volume :: "64 word"

definition new_OrderBook :: "32 word \<Rightarrow> OrderBook" where
  "new_OrderBook max_orders =
     \<lparr>order_pool = new_ObjectPool max_orders, order_map = Map.empty,
      bids = [], asks = [], total_trades = 0, total_volume = 0\<rparr>"

definition emit_trade :: "(Trade \<Rightarrow> 'e \<Rightarrow> 'e) option \<Rightarrow> Trade \<Rightarrow> 'e \<Rightarrow> 'e" where
  "emit_trade cb t env = (case cb of None \<Rightarrow> env | Some f \<Rightarrow> f t env)"

text \<open>\<open>std::min\<close> on two \<open>int64_t\<close>: \<open>(b < a) ? b : a\<close>.\<close>

definition std_min :: "64 word \<Rightarrow> 64 word \<Rightarrow> 64 word" where
  "std_min a b = (if b <s a then b else a)"

subsection \<open>The matching loop\<close>

text \<open>
  The state of the inner \<open>while\<close> loop of \<open>match_order\<close> on one level: the book
  (pool, index and counters), the level under the iterator, the taker's remaining
  quantity, the trade count and the observer's state.  \<open>match_step\<close> is the body of
  the loop, \<open>match_level\<close> the loop.
\<close>

definition match_step ::
  "bool \<Rightarrow> (Trade \<Rightarrow> 'e \<Rightarrow> 'e) option \<Rightarrow> OrderId \<Rightarrow> TraderId \<Rightarrow> Side
   \<Rightarrow> OrderBook \<times> PriceLevel \<times> Qty \<times> nat \<times> 'e
   \<Rightarrow> (OrderBook \<times> PriceLevel \<times> Qty \<times> nat \<times> 'e) option" where
  "match_step dbg cb taker_oid taker_tid s = (\<lambda>(b, l, remaining, n, env).
     let maker_idx = front_idx l in
     case pool_at (order_pool b) maker_idx of
       None \<Rightarrow> None
     | Some maker \<Rightarrow>
         let fill_qty = std_min remaining (Order.qty_remaining maker);
             trade = new_Trade (Order.order_id maker) taker_oid
                       (Order.trader_id maker) taker_tid
                       (Order.price maker) fill_qty s;
             maker1 = maker\<lparr>Order.qty_remaining := Order.qty_remaining maker - fill_qty\<rparr>;
             p1 = pool_set (order_pool b) maker_idx maker1
         in (case reduce_qty dbg l fill_qty of
               None \<Rightarrow> None
             | Some l1 \<Rightarrow>
                 let remaining1 = remaining - fill_qty;
                     env1 = emit_trade cb trade env;
                     b1 = b\<lparr>order_pool := p1,
                            total_trades := total_trades b + 1,
                            total_volume := total_volume b + fill_qty\<rparr>
                 in if Order.qty_remaining maker1 <=s 0 then
                      (case remove p1 l1 maker_idx of
                         None \<Rightarrow> None
                       | Some (p2, l2) \<Rightarrow>
                           (case pool_at p2 maker_idx of
                              None \<Rightarrow> None
                            | Some maker2 \<Rightarrow>
                                (case deallocate p2 maker_idx of
                                   None \<Rightarrow> None
                                 | Some p3 \<Rightarrow>
                                     Some (b1\<lparr>order_pool := p3,
                                              order_map := (order_map b1)
                                                (Order.order_id maker2 := None)\<rparr>,
                                           l2, remaining1, Suc n, env1))))
                    else Some (b1, l1, remaining1, Suc n, env1)))"

function match_level ::
  "bool \<Rightarrow> (Trade \<Rightarrow> 'e \<Rightarrow> 'e) option \<Rightarrow> OrderId \<Rightarrow> TraderId \<Rightarrow> Side
   \<Rightarrow> OrderBook \<times> PriceLevel \<times> Qty \<times> nat \<times> 'e
   \<Rightarrow> (OrderBook \<times> PriceLevel \<times> Qty \<times> nat \<times> 'e) option" where
  "match_level dbg cb taker_oid taker_tid s (b, l, remaining, n, env) =
     (if 0 <s remaining \<and> \<not> empty l then
        (case match_step dbg cb taker_oid taker_tid s (b, l, remaining, n, env) of
           None \<Rightarrow> None
         | Some st \<Rightarrow> match_level dbg cb taker_oid taker_tid s st)
      else Some (b, l, remaining, n, env))"
  by pat_completeness auto

text \<open>
  The outer \<open>for\<close> loop over the levels of the opposite side.  The list argument is
  the part of the vector from the iterator on; the result is what the loop leaves of
  it.  \<open>levels.erase(level_it)\<close> drops the head and goes on with the tail,
  \<open>++level_it\<close> keeps it.
\<close>

fun match_levels ::
  "bool \<Rightarrow> (Trade \<Rightarrow> 'e \<Rightarrow> 'e) option \<Rightarrow> OrderId \<Rightarrow> TraderId \<Rightarrow> Side \<Rightarrow> Price \<Rightarrow> bool
   \<Rightarrow> PriceLevel list \<Rightarrow> OrderBook \<times> Qty \<times> nat \<times> 'e
   \<Rightarrow> (PriceLevel list \<times> OrderBook \<times> Qty \<times> nat \<times> 'e) option" where
  "match_levels dbg cb taker_oid taker_tid s p is_market [] st = Some ([], st)"
| "match_levels dbg cb taker_oid taker_tid s p is_market (l # ls) (b, remaining, n, env) =
     (if \<not> 0 <s remaining then Some (l # ls, (b, remaining, n, env))
      else if \<not> is_market \<and> s = Buy \<and> p <s PriceLevel.price l
        then Some (l # ls, (b, remaining, n, env))
      else if \<not> is_market \<and> s = Sell \<and> PriceLevel.price l <s p
        then Some (l # ls, (b, remaining, n, env))
      else
        (case match_level dbg cb taker_oid taker_tid s (b, l, remaining, n, env) of
           None \<Rightarrow> None
         | Some (b1, l1, remaining1, n1, env1) \<Rightarrow>
             if empty l1
             then match_levels dbg cb taker_oid taker_tid s p is_market ls
                    (b1, remaining1, n1, env1)
             else map_option (\<lambda>(ls1, st1). (l1 # ls1, st1))
                    (match_levels dbg cb taker_oid taker_tid s p is_market ls
                       (b1, remaining1, n1, env1))))"

text \<open>
  \<open>match_order\<close> returns the remaining quantity and, through the reference
  parameter, the trade count.  The opposite side's vector is written back whole.
\<close>

definition match_order ::
  "bool \<Rightarrow> (Trade \<Rightarrow> 'e \<Rightarrow> 'e) option \<Rightarrow> OrderBook \<Rightarrow> OrderId \<Rightarrow> TraderId \<Rightarrow> Side \<Rightarrow> Price \<Rightarrow> Qty
   \<Rightarrow> bool \<Rightarrow> 'e \<Rightarrow> (OrderBook \<times> Qty \<times> nat \<times> 'e) option" where
  "match_order dbg cb b taker_oid taker_tid s p q is_market env =
     (case match_levels dbg cb taker_oid taker_tid s p is_market
             (if s = Buy then asks b else bids b) (b, q, 0, env) of
        None \<Rightarrow> None
      | Some (levels, b1, remaining, n, env1) \<Rightarrow>
          Some (if s = Buy then b1\<lparr>asks := levels\<rparr> else b1\<lparr>bids := levels\<rparr>,
                remaining, n, env1))"

subsection \<open>Level lookup\<close>

text \<open>The comparator given to \<open>std::lower_bound\<close>.\<close>

definition level_before :: "bool \<Rightarrow> Price \<Rightarrow> PriceLevel \<Rightarrow> bool" where
  "level_before is_bid p l =
     (if is_bid then p <s PriceLevel.price l else PriceLevel.price l <s p)"

text \<open>
  \<open>std::lower_bound\<close> is specified on a range that is partitioned by the comparator
  and returns the partition point, here as an index.  On a range that is not
  partitioned its result is unspecified: \<open>None\<close>.
\<close>

definition lower_bound :: "PriceLevel list \<Rightarrow> Price \<Rightarrow> bool \<Rightarrow> nat option" where
  "lower_bound levels p is_bid =
     (let i = length (takeWhile (level_before is_bid p) levels)
      in if list_all (\<lambda>l. \<not> level_before is_bid p l) (drop i levels) then Some i
         else None)"

text \<open>The iterator that is returned is an index into the returned vector.\<close>

definition find_or_create_level ::
  "PriceLevel list \<Rightarrow> Price \<Rightarrow> bool \<Rightarrow> (nat \<times> PriceLevel list) option" where
  "find_or_create_level levels p is_bid =
     (case lower_bound levels p is_bid of
        None \<Rightarrow> None
      | Some i \<Rightarrow>
          if i \<noteq> length levels \<and> PriceLevel.price (levels ! i) = p then Some (i, levels)
          else Some (i, take i levels @ new_PriceLevel p # drop i levels))"

text \<open>\<open>levels.end()\<close> is the index \<open>length levels\<close>.\<close>

definition find_level :: "PriceLevel list \<Rightarrow> Price \<Rightarrow> bool \<Rightarrow> nat option" where
  "find_level levels p is_bid =
     (case lower_bound levels p is_bid of
        None \<Rightarrow> None
      | Some i \<Rightarrow>
          if i \<noteq> length levels \<and> PriceLevel.price (levels ! i) = p then Some i
          else Some (length levels))"

definition remove_level_if_empty :: "PriceLevel list \<Rightarrow> nat \<Rightarrow> PriceLevel list" where
  "remove_level_if_empty levels i =
     (if i \<noteq> length levels \<and> empty (levels ! i) then take i levels @ drop (Suc i) levels
      else levels)"

subsection \<open>Order operations\<close>

definition remove_order_internal :: "OrderBook \<Rightarrow> 32 word \<Rightarrow> OrderBook option" where
  "remove_order_internal b pool_idx =
     (case pool_at (order_pool b) pool_idx of
        None \<Rightarrow> None
      | Some ord \<Rightarrow>
          let is_bid = (Order.side ord = Buy);
              levels = (if is_bid then bids b else asks b)
          in (case find_level levels (Order.price ord) is_bid of
                None \<Rightarrow> None
              | Some i \<Rightarrow>
                  (case (if i \<noteq> length levels
                         then map_option
                                (\<lambda>(p1, l1). (p1, remove_level_if_empty (levels[i := l1]) i))
                                (remove (order_pool b) (levels ! i) pool_idx)
                         else Some (order_pool b, levels)) of
                     None \<Rightarrow> None
                   | Some (p1, levels1) \<Rightarrow>
                       (case deallocate p1 pool_idx of
                          None \<Rightarrow> None
                        | Some p2 \<Rightarrow>
                            Some (if is_bid then b\<lparr>order_pool := p2, bids := levels1\<rparr>
                                  else b\<lparr>order_pool := p2, asks := levels1\<rparr>)))))"

definition add_limit_internal ::
  "bool \<Rightarrow> (Trade \<Rightarrow> 'e \<Rightarrow> 'e) option \<Rightarrow> OrderBook \<Rightarrow> OrderId \<Rightarrow> TraderId \<Rightarrow> Side \<Rightarrow> Price \<Rightarrow> Qty
   \<Rightarrow> 'e \<Rightarrow> (OrderBook \<times> 'e \<times> OrderResponse) option" where
  "add_limit_internal dbg cb b oid tid s p q env =
     (if order_map b oid \<noteq> None
      then Some (b, env, (new_response oid)\<lparr>result := Rejected\<rparr>)
      else
        (case match_order dbg cb b oid tid s p q False env of
           None \<Rightarrow> None
         | Some (b1, remaining, trades, env1) \<Rightarrow>
             let response = (new_response oid)
                   \<lparr>OrderResponse.trade_count := trades, qty_filled := q - remaining,
                    OrderResponse.qty_remaining := remaining\<rparr>
             in if remaining <=s 0
                then Some (b1, env1, response\<lparr>result := FullyFilled\<rparr>)
                else
                  (case allocate (order_pool b1) (new_Order oid tid s p remaining) of
                     (pool1, pool_idx) \<Rightarrow>
                       if pool_idx = INVALID_POOL_INDEX
                       then Some (b1\<lparr>order_pool := pool1\<rparr>, env1,
                                  response\<lparr>result := Rejected\<rparr>)
                       else
                         let b2 = b1\<lparr>order_pool := pool1,
                                       order_map := (order_map b1)(oid \<mapsto> pool_idx)\<rparr>;
                             levels = (if s = Buy then bids b2 else asks b2)
                         in (case find_or_create_level levels p (s = Buy) of
                               None \<Rightarrow> None
                             | Some (i, levels1) \<Rightarrow>
                                 (case push_back (order_pool b2) (levels1 ! i) pool_idx of
                                    None \<Rightarrow> None
                                  | Some (pool2, l1) \<Rightarrow>
                                      Some (if s = Buy
                                            then b2\<lparr>order_pool := pool2,
                                                    bids := levels1[i := l1]\<rparr>
                                            else b2\<lparr>order_pool := pool2,
                                                    asks := levels1[i := l1]\<rparr>,
                                            env1,
                                            response\<lparr>result :=
                                              (if 0 < trades then PartiallyFilled
                                               else Accepted)\<rparr>))))))"

definition add_limit ::
  "bool \<Rightarrow> (Trade \<Rightarrow> 'e \<Rightarrow> 'e) option \<Rightarrow> OrderBook \<Rightarrow> OrderId \<Rightarrow> TraderId \<Rightarrow> Side \<Rightarrow> Price \<Rightarrow> Qty
   \<Rightarrow> 'e \<Rightarrow> (OrderBook \<times> 'e \<times> OrderResponse) option" where
  "add_limit dbg cb b oid tid s p q env = add_limit_internal dbg cb b oid tid s p q env"

definition add_market ::
  "bool \<Rightarrow> (Trade \<Rightarrow> 'e \<Rightarrow> 'e) option \<Rightarrow> OrderBook \<Rightarrow> OrderId \<Rightarrow> TraderId \<Rightarrow> Side \<Rightarrow> Qty
   \<Rightarrow> 'e \<Rightarrow> (OrderBook \<times> 'e \<times> OrderResponse) option" where
  "add_market dbg cb b oid tid s q env =
     (case match_order dbg cb b oid tid s 0 q True env of
        None \<Rightarrow> None
      | Some (b1, remaining, trades, env1) \<Rightarrow>
          Some (b1, env1,
                (new_response oid)
                  \<lparr>OrderResponse.trade_count := trades, qty_filled := q - remaining,
                   OrderResponse.qty_remaining := remaining,
                   result := (if remaining <=s 0 then FullyFilled else PartiallyFilled)\<rparr>))"

definition cancel :: "OrderBook \<Rightarrow> OrderId \<Rightarrow> (OrderBook \<times> OrderResponse) option" where
  "cancel b oid =
     (case order_map b oid of
        None \<Rightarrow> Some (b, (new_response oid)\<lparr>result := NotFound\<rparr>)
      | Some pool_idx \<Rightarrow>
          (case pool_at (order_pool b) pool_idx of
             None \<Rightarrow> None
           | Some ord \<Rightarrow>
               (case remove_order_internal b pool_idx of
                  None \<Rightarrow> None
                | Some b1 \<Rightarrow>
                    Some (b1\<lparr>order_map := (order_map b1)(oid := None)\<rparr>,
                          (new_response oid)
                            \<lparr>OrderResponse.qty_remaining := Order.qty_remaining ord,
                             result := Cancelled\<rparr>))))"

definition modify ::
  "bool \<Rightarrow> (Trade \<Rightarrow> 'e \<Rightarrow> 'e) option \<Rightarrow> OrderBook \<Rightarrow> OrderId \<Rightarrow> Qty \<Rightarrow> Price
   \<Rightarrow> 'e \<Rightarrow> (OrderBook \<times> 'e \<times> OrderResponse) option" where
  "modify dbg cb b oid new_qty new_price env =
     (case order_map b oid of
        None \<Rightarrow> Some (b, env, (new_response oid)\<lparr>result := NotFound\<rparr>)
      | Some pool_idx \<Rightarrow>
          (case pool_at (order_pool b) pool_idx of
             None \<Rightarrow> None
           | Some ord \<Rightarrow>
               if new_price \<noteq> 0 \<and> new_price \<noteq> Order.price ord then
                 (case remove_order_internal b pool_idx of
                    None \<Rightarrow> None
                  | Some b1 \<Rightarrow>
                      add_limit_internal dbg cb (b1\<lparr>order_map := (order_map b1)(oid := None)\<rparr>)
                        oid (Order.trader_id ord) (Order.side ord) new_price new_qty env)
               else if new_qty <s Order.qty_remaining ord then
                 (let is_bid = (Order.side ord = Buy);
                      levels = (if is_bid then bids b else asks b)
                  in case find_level levels (Order.price ord) is_bid of
                       None \<Rightarrow> None
                     | Some i \<Rightarrow>
                         (case (if i \<noteq> length levels
                                then map_option (\<lambda>l1. levels[i := l1])
                                       (reduce_qty dbg (levels ! i)
                                          (Order.qty_remaining ord - new_qty))
                                else Some levels) of
                            None \<Rightarrow> None
                          | Some levels1 \<Rightarrow>
                              let pool1 = pool_set (order_pool b) pool_idx
                                            (ord\<lparr>Order.qty_remaining := new_qty\<rparr>)
                              in Some (if is_bid
                                       then b\<lparr>order_pool := pool1, bids := levels1\<rparr>
                                       else b\<lparr>order_pool := pool1, asks := levels1\<rparr>,
                                       env,
                                       (new_response oid)
                                         \<lparr>OrderResponse.qty_remaining := new_qty,
                                          result := Modified\<rparr>)))
               else
                 (case remove_order_internal b pool_idx of
                    None \<Rightarrow> None
                  | Some b1 \<Rightarrow>
                      add_limit_internal dbg cb (b1\<lparr>order_map := (order_map b1)(oid := None)\<rparr>)
                        oid (Order.trader_id ord) (Order.side ord) (Order.price ord)
                        new_qty env)))"

section \<open>Matching engine (include/ces/engine/matching_engine.hpp)\<close>

text \<open>
  The four counters of \<open>EngineStats\<close> that \<open>process_event\<close> and \<open>on_trade\<close> touch.
  The logger and the latency histogram only observe and are left out.
\<close>

record EngineStats =
  trade_count :: "64 word"
  volume :: "64 word"
  rejected_count :: "64 word"
  filled_qty :: "64 word"

definition new_EngineStats :: EngineStats where
  "new_EngineStats =
     \<lparr>EngineStats.trade_count = 0, EngineStats.volume = 0, rejected_count = 0,
      filled_qty = 0\<rparr>"

record EngineConfig =
  max_orders :: "32 word"
  cfg_max_traders :: nat
  initial_balance :: "64 word"
  risk :: RiskConfig

definition default_EngineConfig :: EngineConfig where
  "default_EngineConfig =
     \<lparr>max_orders = 1000000, cfg_max_traders = 1000, initial_balance = 1000000000,
      risk = default_RiskConfig\<rparr>"

record MatchingEngine =
  book :: OrderBook
  eng_accounts :: Accounts
  stats :: EngineStats
  config :: EngineConfig
  events_processed :: "64 word"

definition new_MatchingEngine :: "EngineConfig \<Rightarrow> MatchingEngine" where
  "new_MatchingEngine cfg =
     \<lparr>book = new_OrderBook (max_orders cfg),
      eng_accounts = new_Accounts (cfg_max_traders cfg),
      stats = new_EngineStats,
      config = cfg,
      events_processed = 0\<rparr>"

text \<open>
  \<open>on_trade\<close> is the callback that the constructor installs in the book.  It changes
  the accounts and the statistics, which are the observer state of the book operations.
\<close>

definition on_trade :: "Trade \<Rightarrow> Accounts \<times> EngineStats \<Rightarrow> Accounts \<times> EngineStats" where
  "on_trade t = (\<lambda>(A, st).
     (apply_trade A (maker_trader_id t) (taker_trader_id t) (taker_side t)
        (Trade.price t) (Trade.qty t),
      st\<lparr>EngineStats.trade_count := EngineStats.trade_count st + 1,
         EngineStats.volume := EngineStats.volume st + Trade.qty t\<rparr>))"

definition process_event :: "bool \<Rightarrow> MatchingEngine \<Rightarrow> OrderEvent \<Rightarrow> MatchingEngine option" where
  "process_event dbg eng event =
     (let A1 = (if type event \<noteq> Cancel
                then get_or_create (eng_accounts eng) (OrderEvent.trader_id event)
                       (initial_balance (config eng))
                else eng_accounts eng);
          risk_result = check (risk (config eng)) (Some A1) event
      in if risk_result \<noteq> Passed
         then Some (eng\<lparr>eng_accounts := A1,
                         stats := (stats eng)\<lparr>rejected_count := rejected_count (stats eng) + 1\<rparr>\<rparr>)
         else
           (case (case type event of
                    NewLimit \<Rightarrow>
                      add_limit dbg (Some on_trade) (book eng) (OrderEvent.order_id event)
                        (OrderEvent.trader_id event) (OrderEvent.side event)
                        (OrderEvent.price event) (OrderEvent.qty event) (A1, stats eng)
                  | NewMarket \<Rightarrow>
                      add_market dbg (Some on_trade) (book eng) (OrderEvent.order_id event)
                        (OrderEvent.trader_id event) (OrderEvent.side event)
                        (OrderEvent.qty event) (A1, stats eng)
                  | Cancel \<Rightarrow>
                      map_option (\<lambda>(b1, r). (b1, (A1, stats eng), r))
                        (cancel (book eng) (OrderEvent.order_id event))
                  | Modify \<Rightarrow>
                      modify dbg (Some on_trade) (book eng) (OrderEvent.order_id event)
                        (OrderEvent.qty event) (OrderEvent.price event) (A1, stats eng)) of
              None \<Rightarrow> None
            | Some (b1, (A2, st2), response) \<Rightarrow>
                Some (eng\<lparr>book := b1,
                          eng_accounts := A2,
                          stats := (if success response \<and> 0 <s qty_filled response
                                    then st2\<lparr>filled_qty := filled_qty st2 + qty_filled response\<rparr>
                                    else st2),
                          events_processed := events_processed eng + 1\<rparr>)))"

text \<open>
  \<open>run\<close> pops events until the stop request and then drains the queue: every event
  that is dequeued goes through \<open>process_event\<close>, in queue order.
\<close>

fun run :: "bool \<Rightarrow> MatchingEngine \<Rightarrow> OrderEvent list \<Rightarrow> MatchingEngine option" where
  "run dbg eng [] = Some eng"
| "run dbg eng (event # events) =
     (case process_event dbg eng event of None \<Rightarrow> None | Some eng1 \<Rightarrow> run dbg eng1 events)"

section \<open>The risk gate in the words of the specification\<close>

text \<open>
  The specification lists the checks of the risk gate in order; the first one that
  fails gives the result.  \<open>check_spec\<close> is written from that list, to be compared
  with \<open>check\<close>.
\<close>

definition price_within_limits :: "RiskConfig \<Rightarrow> OrderEvent \<Rightarrow> bool" where
  "price_within_limits cfg ev =
     (min_price cfg <=s OrderEvent.price ev \<and> OrderEvent.price ev <=s max_price cfg)"

definition qty_within_limits :: "RiskConfig \<Rightarrow> OrderEvent \<Rightarrow> bool" where
  "qty_within_limits cfg ev =
     (0 <s OrderEvent.qty ev \<and> OrderEvent.qty ev <=s max_order_qty cfg)"

definition value_within_limit :: "RiskConfig \<Rightarrow> OrderEvent \<Rightarrow> bool" where
  "value_within_limit cfg ev =
     (OrderEvent.price ev * OrderEvent.qty ev <=s max_order_value cfg)"

definition balance_covers :: "Accounts \<Rightarrow> OrderEvent \<Rightarrow> bool" where
  "balance_covers A ev =
     (case get A (OrderEvent.trader_id ev) of
        None \<Rightarrow> False
      | Some acc \<Rightarrow> OrderEvent.price ev * OrderEvent.qty ev <=s balance acc)"

fun first_failure :: "(bool \<times> RiskResult) list \<Rightarrow> RiskResult" where
  "first_failure [] = Passed"
| "first_failure ((ok, r) # cs) = (if ok then first_failure cs else r)"

definition check_spec :: "RiskConfig \<Rightarrow> Accounts option \<Rightarrow> OrderEvent \<Rightarrow> RiskResult" where
  "check_spec cfg accs ev =
     (if type ev = Cancel then Passed
      else first_failure
        [(type ev = NewMarket \<or> price_within_limits cfg ev, InvalidPrice),
         (qty_within_limits cfg ev, InvalidQty),
         (value_within_limit cfg ev, ExceedsMaxOrderValue),
         (\<not> (check_balance cfg \<and> accs \<noteq> None \<and> OrderEvent.side ev = Buy)
            \<or> balance_covers (the accs) ev, InsufficientBalance)])"

section \<open>Sequences of book operations\<close>

text \<open>
  A call of one of the four public operations of \<open>OrderBook\<close> with its arguments.
  \<open>apply_ops\<close> makes the calls of a list one after the other on a book and the
  observer's state; it is \<open>None\<close> when one of the calls is.
\<close>

datatype BookOp =
    OpAddLimit OrderId TraderId Side Price Qty
  | OpAddMarket OrderId TraderId Side Qty
  | OpCancel OrderId
  | OpModify OrderId Qty Price

definition apply_op ::
  "bool \<Rightarrow> (Trade \<Rightarrow> 'e \<Rightarrow> 'e) option \<Rightarrow> OrderBook \<times> 'e \<Rightarrow> BookOp \<Rightarrow> (OrderBook \<times> 'e) option" where
  "apply_op dbg cb st call =
     (case st of (b, env) \<Rightarrow>
        (case call of
           OpAddLimit oid tid s p q \<Rightarrow>
             map_option (\<lambda>(b1, env1, resp). (b1, env1)) (add_limit dbg cb b oid tid s p q env)
         | OpAddMarket oid tid s q \<Rightarrow>
             map_option (\<lambda>(b1, env1, resp). (b1, env1)) (add_market dbg cb b oid tid s q env)
         | OpCancel oid \<Rightarrow>
             map_option (\<lambda>(b1, resp). (b1, env)) (cancel b oid)
         | OpModify oid new_qty new_price \<Rightarrow>
             map_option (\<lambda>(b1, env1, resp). (b1, env1))
               (modify dbg cb b oid new_qty new_price env)))"

fun apply_ops ::
  "bool \<Rightarrow> (Trade \<Rightarrow> 'e \<Rightarrow> 'e) option \<Rightarrow> OrderBook \<times> 'e \<Rightarrow> BookOp list
   \<Rightarrow> (OrderBook \<times> 'e) option" where
  "apply_ops dbg cb st [] = Some st"
| "apply_ops dbg cb st (call # calls) =
     (case apply_op dbg cb st call of
        None \<Rightarrow> None
      | Some st1 \<Rightarrow> apply_ops dbg cb st1 calls)"

text \<open>The order of the level vectors, on the signed prices.\<close>

definition strictly_decreasing :: "PriceLevel list \<Rightarrow> bool" where
  "strictly_decreasing ls =
     sorted_wrt (\<lambda>x y. PriceLevel.price y <s PriceLevel.price x) ls"

definition strictly_increasing :: "PriceLevel list \<Rightarrow> bool" where
  "strictly_increasing ls =
     sorted_wrt (\<lambda>x y. PriceLevel.price x <s PriceLevel.price y) ls"

section \<open>The linked structure of a book\<close>

text \<open>
  The definitions of this section describe the pool, the index and the level vectors of
  a book that the operations keep consistent.  They are used in the proofs of the
  invariants; no operation evaluates them.
\<close>

text \<open>The orders of a level, from the head along \<open>next_idx\<close>, with the \<open>prev_idx\<close> links
  pointing back; \<open>prv\<close> is what the first order's \<open>prev_idx\<close> holds.\<close>

fun dll :: "(32 word \<Rightarrow> Order option) \<Rightarrow> 32 word \<Rightarrow> 32 word \<Rightarrow> 32 word list \<Rightarrow> bool" where
  "dll f prv h [] = (h = INVALID_POOL_INDEX)"
| "dll f prv h (x # xs) =
     (h = x \<and> (case f x of None \<Rightarrow> False
                | Some ord \<Rightarrow> prev_idx ord = prv \<and> dll f x (next_idx ord) xs))"

definition links :: "Order \<Rightarrow> 32 word \<times> 32 word" where
  "links ord = (prev_idx ord, next_idx ord)"

text \<open>The pool contents after \<open>push_back\<close> of \<open>x\<close> behind the tail \<open>t\<close>.\<close>

definition snoc_fun ::
  "(32 word \<Rightarrow> Order option) \<Rightarrow> 32 word \<Rightarrow> 32 word \<Rightarrow> Order \<Rightarrow> 32 word \<Rightarrow> Order option" where
  "snoc_fun f t x ord =
     (let f1 = f(x \<mapsto> ord\<lparr>prev_idx := t, next_idx := INVALID_POOL_INDEX\<rparr>)
      in if t \<noteq> INVALID_POOL_INDEX then f1(t \<mapsto> (the (f1 t))\<lparr>next_idx := x\<rparr>) else f1)"

text \<open>The pool contents after \<open>remove\<close> of \<open>x\<close>, which holds \<open>ord\<close>.\<close>

definition rem_fun :: "(32 word \<Rightarrow> Order option) \<Rightarrow> 32 word \<Rightarrow> Order \<Rightarrow> 32 word \<Rightarrow> Order option" where
  "rem_fun f x ord =
     (let f1 = (if prev_idx ord \<noteq> INVALID_POOL_INDEX
                then f(prev_idx ord \<mapsto> (the (f (prev_idx ord)))\<lparr>next_idx := next_idx ord\<rparr>)
                else f);
          f2 = (if next_idx ord \<noteq> INVALID_POOL_INDEX
                then f1(next_idx ord \<mapsto> (the (f1 (next_idx ord)))\<lparr>prev_idx := prev_idx ord\<rparr>)
                else f1)
      in f2(x \<mapsto> ord\<lparr>prev_idx := INVALID_POOL_INDEX, next_idx := INVALID_POOL_INDEX\<rparr>))"

text \<open>The fields of an order that no operation writes after the constructor.\<close>

definition static :: "Order \<Rightarrow> OrderId \<times> TraderId \<times> Side \<times> Price" where
  "static ord = (Order.order_id ord, Order.trader_id ord, Order.side ord, Order.price ord)"

text \<open>\<open>p'\<close> differs from \<open>p\<close> only in links and quantities of orders that are in use.\<close>

definition pool_frame :: "ObjectPool \<Rightarrow> ObjectPool \<Rightarrow> bool" where
  "pool_frame p p' =
     (free_head p' = free_head p \<and> capacity p' = capacity p
      \<and> (\<forall>j. next_free (storage p' j) = next_free (storage p j))
      \<and> (\<forall>j. map_option static (pool_at p' j) = map_option static (pool_at p j)))"

text \<open>
  The chain \<open>xs\<close> is the list of the level \<open>l\<close> of side \<open>s\<close>: linked from the head,
  ending in the tail, counted by \<open>order_count\<close>, every order of the level's side and
  price.
\<close>

definition level_ok :: "(32 word \<Rightarrow> Order option) \<Rightarrow> Side \<Rightarrow> PriceLevel \<Rightarrow> 32 word list \<Rightarrow> bool" where
  "level_ok f s l xs =
     (dll f INVALID_POOL_INDEX (head_idx l) xs
      \<and> tail_idx l = (if xs = [] then INVALID_POOL_INDEX else last xs)
      \<and> unat (order_count l) = length xs
      \<and> (\<forall>x\<in>set xs. \<exists>ord. f x = Some ord \<and> Order.side ord = s
                           \<and> Order.price ord = PriceLevel.price l))"

text \<open>The freelist: from \<open>free_head\<close> along \<open>next_free\<close> through free slots.\<close>

fun free_chain :: "ObjectPool \<Rightarrow> 32 word \<Rightarrow> 32 word list \<Rightarrow> bool" where
  "free_chain p h [] = (h = INVALID_POOL_INDEX)"
| "free_chain p h (x # xs) =
     (h = x \<and> x < capacity p \<and> pool_at p x = None
      \<and> free_chain p (next_free (storage p x)) xs)"

definition free_ok :: "ObjectPool \<Rightarrow> bool" where
  "free_ok p = (\<exists>fs. free_chain p (free_head p) fs \<and> distinct fs)"

text \<open>The level vector of a side.\<close>

definition levels_of :: "OrderBook \<Rightarrow> Side \<Rightarrow> PriceLevel list" where
  "levels_of b s = (if s = Buy then bids b else asks b)"

text \<open>
  \<open>C s\<close> lists the chain_set of the levels of side \<open>s\<close>.  Every level has its chain, no
  slot is in two chain_set, every slot in use is in a chain, the index maps exactly the
  ids of the orders in use to their slots, and the freelist is a list.
\<close>

definition core ::
  "ObjectPool \<Rightarrow> (64 word \<rightharpoonup> 32 word) \<Rightarrow> (Side \<Rightarrow> PriceLevel list)
   \<Rightarrow> (Side \<Rightarrow> 32 word list list) \<Rightarrow> bool" where
  "core p om L C =
     ((\<forall>s. list_all2 (level_ok (pool_at p) s) (L s) (C s))
      \<and> distinct (concat (C Buy) @ concat (C Sell))
      \<and> (\<forall>i. pool_at p i \<noteq> None \<longrightarrow> i \<in> set (concat (C Buy)) \<union> set (concat (C Sell)))
      \<and> (\<forall>oid i. om oid = Some i \<longleftrightarrow> (\<exists>ord. pool_at p i = Some ord \<and> Order.order_id ord = oid))
      \<and> free_ok p)"

text \<open>The level vector of a side is ordered by the comparator of its lookups.\<close>

definition sorted_side :: "Side \<Rightarrow> PriceLevel list \<Rightarrow> bool" where
  "sorted_side s ls = sorted_wrt (\<lambda>a b. level_before (s = Buy) (PriceLevel.price b) a) ls"

text \<open>The invariant of the book: linked structure, order of the levels, no empty level.\<close>

definition book_inv :: "OrderBook \<Rightarrow> bool" where
  "book_inv b =
     ((\<exists>C. core (order_pool b) (order_map b) (levels_of b) C)
      \<and> (\<forall>s. sorted_side s (levels_of b s))
      \<and> (\<forall>s. \<forall>l\<in>set (levels_of b s). order_count l \<noteq> 0))"

text \<open>The slots that are in some chain.\<close>

definition chain_set :: "(Side \<Rightarrow> 32 word list list) \<Rightarrow> 32 word set" where
  "chain_set C = set (concat (C Buy)) \<union> set (concat (C Sell))"

section \<open>Concrete states used in the examples\<close>

text \<open>One account, trader 0, with balance 1000.\<close>

definition self_trade_accounts :: Accounts where
  "self_trade_accounts = \<lparr>accounts = [new_Account 0 1000], max_traders = 10\<rparr>"

text \<open>Two accounts: trader 0 with balance 1000 and trader 1 with balance 5000.\<close>

definition two_accounts :: Accounts where
  "two_accounts = \<lparr>accounts = [new_Account 0 1000, new_Account 1 5000], max_traders = 10\<rparr>"

text \<open>An observer that records the trades in the order of the callback's calls.\<close>

definition rec_trades :: "(Trade \<Rightarrow> Trade list \<Rightarrow> Trade list) option" where
  "rec_trades = Some (\<lambda>t ts. ts @ [t])"

text \<open>Projections of the result of a book operation.\<close>

definition result_of :: "(OrderBook \<times> 'e \<times> OrderResponse) option \<Rightarrow> OrderResult option" where
  "result_of x = map_option (\<lambda>(b, env, resp). result resp) x"

definition book_after :: "(OrderBook \<times> 'e \<times> OrderResponse) option \<Rightarrow> OrderBook" where
  "book_after x = fst (the x)"

definition trades_after :: "(OrderBook \<times> Trade list \<times> OrderResponse) option \<Rightarrow> Trade list" where
  "trades_after x = fst (snd (the x))"

text \<open>A book with room for four orders after add_limit(id 1, trader 0, Buy, 100, 10).\<close>

definition book_one_bid :: OrderBook where
  "book_one_bid = book_after (add_limit True rec_trades (new_OrderBook 4) 1 0 Buy 100 10 [])"

text \<open>A book with room for four orders after add_limit(id 1, trader 0, Sell, 100, 10).\<close>

definition book_one_ask :: OrderBook where
  "book_one_ask = book_after (add_limit True rec_trades (new_OrderBook 4) 1 0 Sell 100 10 [])"


text \<open>The book \<open>book_one_bid\<close> after modify(id 1, new_qty 0, new_price 0).\<close>

definition book_zero_qty :: OrderBook where
  "book_zero_qty = book_after (modify True rec_trades book_one_bid 1 0 0 [])"


text \<open>A sequence of calls that leaves two bid levels and two ask levels.\<close>

definition example_calls :: "BookOp list" where
  "example_calls =
     [OpAddLimit 1 0 Buy 100 10, OpAddLimit 2 0 Buy 102 5, OpAddLimit 3 0 Buy 101 5,
      OpAddLimit 4 1 Sell 105 7, OpAddLimit 5 1 Sell 103 7, OpAddLimit 6 1 Sell 102 8,
      OpCancel 4, OpModify 1 4 0, OpAddMarket 7 1 Sell 2]"

text \<open>A book with the asks 10 at 100 (order 1) and 10 at 101 (order 2).\<close>

definition book_two_asks :: OrderBook where
  "book_two_asks =
     fst (the (apply_ops True rec_trades (new_OrderBook 4, [])
                 [OpAddLimit 1 0 Sell 100 10, OpAddLimit 2 0 Sell 101 10]))"


section \<open>Termination of the matching loop\<close>

lemma remove_order_count:
  "remove p l i = Some (p', l') \<Longrightarrow> order_count l' = order_count l - 1"
  by (auto simp: remove_def split: option.splits if_splits)

lemma reduce_qty_order_count:
  "reduce_qty dbg l q = Some l' \<Longrightarrow> order_count l' = order_count l"
  by (auto simp: reduce_qty_def split: if_splits)

lemma unat_minus_one_less: "(c :: 32 word) \<noteq> 0 \<Longrightarrow> unat (c - 1) < unat c"
  by (simp add: unat_minus_one unat_gt_0 word_neq_0_conv)

lemma std_min_leftover:
  "\<not> m - std_min r m <=s 0 \<Longrightarrow> r - std_min r m = 0"
  by (auto simp: std_min_def split: if_splits)

text \<open>
  Every iteration either unlinks the head of the level, which lowers \<open>order_count\<close>,
  or leaves a maker with a positive remainder, which happens only when the taker's
  remaining quantity has just become zero.
\<close>

lemma match_step_decreases:
  assumes "match_step dbg cb oid tid s (b, l, r, n, env) = Some (b', l', r', n', env')"
    and "0 <s r" and "order_count l \<noteq> 0"
  shows "unat (order_count l') < unat (order_count l)
         \<or> (order_count l' = order_count l \<and> r' = 0)"
  using assms
  by (auto simp: match_step_def Let_def split: option.splits if_splits
           dest!: remove_order_count reduce_qty_order_count std_min_leftover
           intro: unat_minus_one_less)

termination match_level
  apply (relation "measures [\<lambda>(dbg, cb, oid, tid, s, (b, l, r, n, env)). unat (order_count l),
                           \<lambda>(dbg, cb, oid, tid, s, (b, l, r, n, env)). if 0 <s r then 1 else 0]")
   apply simp
  apply (auto simp: empty_def dest!: match_step_decreases)
  done

declare match_level.simps [simp del]

section \<open>Risk gate\<close>

lemma check_refines_spec: "check cfg accs ev = check_spec cfg accs ev"
  by (cases "type ev")
     (auto simp: check_def check_spec_def price_within_limits_def qty_within_limits_def
        value_within_limit_def balance_covers_def has_sufficient_balance_def Let_def
        signed.not_less signed.not_le split: option.splits)

text \<open>
  C9.  \<open>check\<close> returns \<open>Passed\<close> for every Cancel event.  For every other event it
  is the first failing check of the list: price within \<open>[min_price, max_price]\<close>
  (skipped for market orders), \<open>0 < qty \<le> max_order_qty\<close>,
  \<open>price * qty \<le> max_order_value\<close> with the 64-bit product, and, if balance checking
  is enabled, an account table is attached and the side is Buy, a sufficient balance.
  In particular a zero-quantity event that comes to the quantity check (its price
  check passes or is skipped) yields \<open>InvalidQty\<close>, and a price equal to one of the
  limits of the interval \<open>[min_price, max_price]\<close> passes the price check: the event is
  not rejected with \<open>InvalidPrice\<close>.
\<close>

theorem risk_check_order:
  "check cfg accs ev = check_spec cfg accs ev
   \<and> (type ev = Cancel \<longrightarrow> check cfg accs ev = Passed)
   \<and> (type ev \<noteq> Cancel \<and> OrderEvent.qty ev = 0
        \<and> (type ev = NewMarket \<or> price_within_limits cfg ev)
        \<longrightarrow> check cfg accs ev = InvalidQty)
   \<and> (min_price cfg <=s max_price cfg
        \<and> (OrderEvent.price ev = min_price cfg \<or> OrderEvent.price ev = max_price cfg)
        \<longrightarrow> check cfg accs ev \<noteq> InvalidPrice)"
  unfolding check_refines_spec
  by (auto simp: check_spec_def price_within_limits_def qty_within_limits_def)

theorem risk_check_order_witness:
  "check default_RiskConfig None (ev_cancel 7) = Passed
   \<and> check default_RiskConfig None (ev_new_limit 1 0 Buy 100 0) = InvalidQty
   \<and> check default_RiskConfig None (ev_new_limit 1 0 Sell 1 5) \<noteq> InvalidPrice
   \<and> check default_RiskConfig None (ev_new_limit 1 0 Sell 1000000 5) \<noteq> InvalidPrice"
proof -
  note r = risk_check_order [THEN conjunct2]
  have 1: "check default_RiskConfig None (ev_cancel 7) = Passed"
    by (rule r [THEN conjunct1, rule_format]) (simp add: ev_cancel_def)
  have 2: "check default_RiskConfig None (ev_new_limit 1 0 Buy 100 0) = InvalidQty"
    by (rule r [THEN conjunct2, THEN conjunct1, rule_format])
       (simp add: ev_new_limit_def default_RiskConfig_def price_within_limits_def word_sle_eq)
  have 3: "check default_RiskConfig None (ev_new_limit 1 0 Sell 1 5) \<noteq> InvalidPrice"
    by (rule r [THEN conjunct2, THEN conjunct2, rule_format])
       (simp add: ev_new_limit_def default_RiskConfig_def word_sle_eq)
  have 4: "check default_RiskConfig None (ev_new_limit 1 0 Sell 1000000 5) \<noteq> InvalidPrice"
    by (rule r [THEN conjunct2, THEN conjunct2, rule_format])
       (simp add: ev_new_limit_def default_RiskConfig_def word_sle_eq)
  from 1 2 3 4 show ?thesis by blast
qed

section \<open>Accounts\<close>

lemma find_account_Some:
  "find_account as tid = Some i \<Longrightarrow> i < length as \<and> Account.trader_id (as ! i) = tid"
  by (induction as arbitrary: i) (auto split: if_splits)

lemma find_account_update:
  "Account.trader_id (f (as ! i)) = Account.trader_id (as ! i) \<Longrightarrow>
   find_account (as[i := f (as ! i)]) tid = find_account as tid"
proof (induction as arbitrary: i)
  case Nil
  then show ?case by simp
next
  case (Cons a as)
  then show ?case by (cases i) auto
qed

lemma get_update_account:
  assumes "\<And>a. Account.trader_id (f a) = Account.trader_id a"
  shows "get (update_account A tid f) tid' =
         (if tid' = tid then map_option f (get A tid) else get A tid')"
proof (cases "find_account (accounts A) tid")
  case None
  then show ?thesis by (simp add: update_account_def get_def)
next
  case (Some i)
  note fi = find_account_Some [OF Some]
  have eq: "\<And>x. find_account ((accounts A)[i := f (accounts A ! i)]) x
                 = find_account (accounts A) x"
    by (rule find_account_update) (simp add: assms)
  show ?thesis
  proof (cases "tid' = tid")
    case True
    then show ?thesis using Some fi by (simp add: update_account_def get_def eq)
  next
    case False
    show ?thesis
    proof (cases "find_account (accounts A) tid'")
      case None
      then show ?thesis using Some False by (simp add: update_account_def get_def eq)
    next
      case (Some j)
      note fj = find_account_Some [OF Some]
      from fi fj False have "i \<noteq> j" by auto
      then show ?thesis using \<open>find_account (accounts A) tid = Some i\<close> Some False
        by (simp add: update_account_def get_def eq)
    qed
  qed
qed

text \<open>
  C8 fails as stated when maker and taker are the same trader: the four updates hit
  one account and cancel, so the taker's balance does not decrease by
  \<open>price * qty\<close> and the position does not increase by \<open>qty\<close>.  Here trader 0 buys
  10 at 100 from itself; balance and position stay 1000 and 0.
\<close>

theorem apply_trade_self_trade_counterexample:
  "map_option balance (get self_trade_accounts 0) = Some 1000
   \<and> map_option position (get self_trade_accounts 0) = Some 0
   \<and> map_option balance (get (apply_trade self_trade_accounts 0 0 Buy 100 10) 0) = Some 1000
   \<and> map_option position (get (apply_trade self_trade_accounts 0 0 Buy 100 10) 0) = Some 0"
  by code_simp

text \<open>
  C8, amended.  When both accounts exist, \<open>apply_trade\<close> conserves totals: the
  position changes of taker and maker add up to zero, and so do the balance changes.
  When maker and taker are different traders, a Buy taker's balance decreases by
  \<open>price * qty\<close> and its position increases by \<open>qty\<close>, with the opposite changes for
  the maker, and the reverse for a Sell taker.  When they are the same trader, balance
  and position are unchanged.  All arithmetic is 64-bit with wrap-around.
\<close>

theorem apply_trade_conserves:
  assumes m: "get A maker_id = Some m" and t: "get A taker_id = Some t"
  shows "\<exists>m' t'. get (apply_trade A maker_id taker_id tside p q) maker_id = Some m'
           \<and> get (apply_trade A maker_id taker_id tside p q) taker_id = Some t'
           \<and> (position t' - position t) + (position m' - position m) = 0
           \<and> (balance t' - balance t) + (balance m' - balance m) = 0
           \<and> (maker_id \<noteq> taker_id \<longrightarrow>
                (if tside = Buy
                 then balance t' = balance t - p * q \<and> position t' = position t + q
                    \<and> balance m' = balance m + p * q \<and> position m' = position m - q
                 else balance t' = balance t + p * q \<and> position t' = position t - q
                    \<and> balance m' = balance m - p * q \<and> position m' = position m + q))
           \<and> (maker_id = taker_id \<longrightarrow> balance t' = balance t \<and> position t' = position t)"
  using m t by (auto simp: apply_trade_def Let_def get_update_account)

theorem apply_trade_conserves_witness:
  "get_balance (apply_trade two_accounts 0 1 Buy 100 10) 1 = 4000
   \<and> get_position (apply_trade two_accounts 0 1 Buy 100 10) 1 = 10
   \<and> get_balance (apply_trade two_accounts 0 1 Buy 100 10) 0 = 2000
   \<and> get_position (apply_trade two_accounts 0 1 Buy 100 10) 0 = - 10"
proof -
  have g0: "get two_accounts 0 = Some (new_Account 0 1000)" by code_simp
  have g1: "get two_accounts 1 = Some (new_Account 1 5000)" by code_simp
  show ?thesis
    using apply_trade_conserves [OF g0 g1, of Buy 100 10]
    by (auto simp: get_balance_def get_position_def new_Account_def)
qed

section \<open>Engine loop\<close>

lemma process_event_counter:
  "process_event dbg eng ev = Some eng' \<Longrightarrow>
   events_processed eng' =
     (if check (risk (config eng))
           (Some (if type ev \<noteq> Cancel
                  then get_or_create (eng_accounts eng) (OrderEvent.trader_id ev)
                         (initial_balance (config eng))
                  else eng_accounts eng)) ev = Passed
      then events_processed eng + 1 else events_processed eng)"
  by (auto simp: process_event_def Let_def split: if_splits option.splits)

text \<open>
  C2 at the failing input.  A fresh engine with the default configuration is run on
  the single event NewLimit(id 1, trader 0, Buy, price 100, qty 0).  The risk gate
  rejects it, \<open>rejected_count\<close> becomes 1, and \<open>process_event\<close> returns before the
  counter is incremented: one event was dequeued and \<open>events_processed\<close> is 0.  The
  same event with quantity 10 is counted.
\<close>

theorem process_event_rejected_not_counted:
  "map_option events_processed
     (run True (new_MatchingEngine default_EngineConfig) [ev_new_limit 1 0 Buy 100 0]) = Some 0
   \<and> map_option (\<lambda>e. rejected_count (stats e))
     (run True (new_MatchingEngine default_EngineConfig) [ev_new_limit 1 0 Buy 100 0]) = Some 1
   \<and> map_option events_processed
     (run True (new_MatchingEngine default_EngineConfig) [ev_new_limit 1 0 Buy 100 10]) = Some 1"
  by code_simp

section \<open>Pool and level primitives: basic facts\<close>

lemma pool_at_pool_set:
  "pool_at (pool_set p i x) j = (if j = i \<and> i < capacity p then Some x else pool_at p j)"
  by (simp add: pool_at_def pool_set_def)

lemma pool_set_fields [simp]:
  "capacity (pool_set p i x) = capacity p"
  "free_head (pool_set p i x) = free_head p"
  by (simp_all add: pool_set_def)

lemma pool_at_Some_valid: "pool_at p i = Some x \<Longrightarrow> i < capacity p \<and> i \<noteq> INVALID_POOL_INDEX"
  by (auto simp: pool_at_def INVALID_POOL_INDEX_def split: if_splits
           dest: word_order.extremum_strict [THEN notE, rotated])

lemma deallocate_SomeD:
  "deallocate p i = Some p' \<Longrightarrow>
     free_head p' = i \<and> i < capacity p \<and> capacity p' = capacity p
     \<and> pool_at p' = (pool_at p)(i := None) \<and> i \<noteq> INVALID_POOL_INDEX"
  by (auto simp: deallocate_def pool_at_def fun_eq_iff INVALID_POOL_INDEX_def split: if_splits)

lemma remove_fieldsD:
  "remove p l i = Some (p', l') \<Longrightarrow>
     free_head p' = free_head p \<and> capacity p' = capacity p
     \<and> PriceLevel.price l' = PriceLevel.price l
     \<and> (\<forall>j. pool_at p' j = None \<longleftrightarrow> pool_at p j = None)"
  by (auto simp: remove_def pool_at_pool_set split: option.splits if_splits)

lemma reduce_qty_fields:
  assumes "reduce_qty dbg l q = Some l'"
  shows "PriceLevel.price l' = PriceLevel.price l" "head_idx l' = head_idx l"
        "tail_idx l' = tail_idx l" "order_count l' = order_count l"
  using assms by (auto simp: reduce_qty_def split: if_splits)

section \<open>Loop rules\<close>

lemma match_level_rule:
  assumes "match_level dbg cb oid tid s st = Some st'"
    and "I st"
    and "\<And>b l r n env st1. I (b, l, r, n, env) \<Longrightarrow> 0 <s r \<Longrightarrow> \<not> empty l \<Longrightarrow>
            match_step dbg cb oid tid s (b, l, r, n, env) = Some st1 \<Longrightarrow> I st1"
  shows "I st'"
  using assms
proof (induction dbg cb oid tid s st rule: match_level.induct)
  case (1 dbg cb oid tid s b l r n env)
  show ?case
  proof (cases "0 <s r \<and> \<not> empty l")
    case True
    with "1.prems"(1) obtain st1 where
      st1: "match_step dbg cb oid tid s (b, l, r, n, env) = Some st1"
      and rest: "match_level dbg cb oid tid s st1 = Some st'"
      by (auto simp: match_level.simps split: option.splits)
    from "1.prems"(3) [OF "1.prems"(2) _ _ st1] True have "I st1" by simp
    then show ?thesis
      by (rule "1.IH" [OF True st1 rest]) (rule "1.prems"(3); assumption)
  next
    case False
    with "1.prems" show ?thesis by (auto simp: match_level.simps)
  qed
qed

lemma match_level_exit:
  "match_level dbg cb oid tid s st = Some (b', l', r', n', env') \<Longrightarrow> \<not> 0 <s r' \<or> empty l'"
proof (induction dbg cb oid tid s st rule: match_level.induct)
  case (1 dbg cb oid tid s b l r n env)
  then show ?case
    by (cases "0 <s r \<and> \<not> empty l") (auto simp: match_level.simps split: option.splits)
qed

text \<open>A property of book, remaining quantity, trade count and observer state that every
  iteration on any level keeps is kept by the whole sweep.\<close>

lemma match_levels_rule:
  assumes "match_levels dbg cb oid tid s p mk ls (b, r, n, env) = Some (ls', b', r', n', env')"
    and "I (b, r, n, env)"
    and "\<And>b l r n env b1 l1 r1 n1 env1. I (b, r, n, env) \<Longrightarrow>
            match_step dbg cb oid tid s (b, l, r, n, env) = Some (b1, l1, r1, n1, env1)
            \<Longrightarrow> 0 <s r \<Longrightarrow> I (b1, r1, n1, env1)"
  shows "I (b', r', n', env')"
  using assms(1,2)
proof (induction ls arbitrary: b r n env ls')
  case Nil
  then show ?case by simp
next
  case (Cons l ls)
  show ?case
  proof (cases "\<not> 0 <s r \<or> (\<not> mk \<and> s = Buy \<and> p <s PriceLevel.price l)
                \<or> (\<not> mk \<and> s = Sell \<and> PriceLevel.price l <s p)")
    case True
    with Cons.prems show ?thesis by (auto split: if_splits)
  next
    case False
    with Cons.prems(1) obtain b1 l1 r1 n1 env1 where
      ml: "match_level dbg cb oid tid s (b, l, r, n, env) = Some (b1, l1, r1, n1, env1)"
      by (auto split: option.splits if_splits)
    have "(\<lambda>(b, l, r, n, env). I (b, r, n, env)) (b1, l1, r1, n1, env1)"
      by (rule match_level_rule [OF ml]) (use Cons.prems(2) assms(3) in auto)
    then have I1: "I (b1, r1, n1, env1)" by simp
    from False Cons.prems(1) ml obtain ls1 where
      "match_levels dbg cb oid tid s p mk ls (b1, r1, n1, env1) = Some (ls1, b', r', n', env')"
      by (auto split: if_splits)
    from Cons.IH [OF this I1] show ?thesis .
  qed
qed

lemma match_order_rule:
  assumes "match_order dbg cb b oid tid s p q mk env = Some (b', r', n', env')"
    and "I (order_pool b, order_map b, total_trades b, total_volume b, q, 0, env)"
    and "\<And>b l r n env b1 l1 r1 n1 env1.
            I (order_pool b, order_map b, total_trades b, total_volume b, r, n, env) \<Longrightarrow>
            match_step dbg cb oid tid s (b, l, r, n, env) = Some (b1, l1, r1, n1, env1)
            \<Longrightarrow> 0 <s r
            \<Longrightarrow> I (order_pool b1, order_map b1, total_trades b1, total_volume b1, r1, n1, env1)"
  shows "I (order_pool b', order_map b', total_trades b', total_volume b', r', n', env')"
proof -
  from assms(1) obtain ls' b1 where
    ml: "match_levels dbg cb oid tid s p mk (if s = Buy then asks b else bids b) (b, q, 0, env)
         = Some (ls', b1, r', n', env')"
    and b': "b' = (if s = Buy then b1\<lparr>asks := ls'\<rparr> else b1\<lparr>bids := ls'\<rparr>)"
    by (auto simp: match_order_def split: option.splits)
  have "(\<lambda>(b, r, n, env). I (order_pool b, order_map b, total_trades b, total_volume b, r, n, env))
          (b1, r', n', env')"
    by (rule match_levels_rule [OF ml]) (use assms(2,3) in auto)
  then show ?thesis by (simp add: b')
qed

lemma match_order_same_side:
  assumes "match_order dbg cb b oid tid s p q mk env = Some (b', r', n', env')"
  shows "(if s = Buy then bids b' = bids b else asks b' = asks b)"
proof -
  from assms obtain ls' b1 where
    ml: "match_levels dbg cb oid tid s p mk (if s = Buy then asks b else bids b) (b, q, 0, env)
         = Some (ls', b1, r', n', env')"
    and b': "b' = (if s = Buy then b1\<lparr>asks := ls'\<rparr> else b1\<lparr>bids := ls'\<rparr>)"
    by (auto simp: match_order_def split: option.splits)
  have "(\<lambda>(b0, r, n, env). bids b0 = bids b \<and> asks b0 = asks b) (b1, r', n', env')"
    by (rule match_levels_rule [OF ml])
       (auto simp: match_step_def Let_def split: option.splits if_splits)
  then show ?thesis by (simp add: b')
qed

section \<open>One iteration of the matching loop\<close>

lemma match_step_cases:
  assumes "match_step dbg cb oid tid s (b, l, r, n, env) = Some st1"
  obtains
    (unlinked) maker l1 p2 l2 maker2 p3 where
      "pool_at (order_pool b) (head_idx l) = Some maker"
      "reduce_qty dbg l (std_min r (Order.qty_remaining maker)) = Some l1"
      "Order.qty_remaining maker - std_min r (Order.qty_remaining maker) <=s 0"
      "remove (pool_set (order_pool b) (head_idx l)
                 (maker\<lparr>Order.qty_remaining :=
                          Order.qty_remaining maker - std_min r (Order.qty_remaining maker)\<rparr>))
              l1 (head_idx l) = Some (p2, l2)"
      "pool_at p2 (head_idx l) = Some maker2"
      "deallocate p2 (head_idx l) = Some p3"
      "st1 = (b\<lparr>order_pool := p3,
                 total_trades := total_trades b + 1,
                 total_volume := total_volume b + std_min r (Order.qty_remaining maker),
                 order_map := (order_map b)(Order.order_id maker2 := None)\<rparr>,
              l2, r - std_min r (Order.qty_remaining maker), Suc n,
              emit_trade cb (new_Trade (Order.order_id maker) oid (Order.trader_id maker) tid
                               (Order.price maker) (std_min r (Order.qty_remaining maker)) s) env)"
  | (kept) maker l1 where
      "pool_at (order_pool b) (head_idx l) = Some maker"
      "reduce_qty dbg l (std_min r (Order.qty_remaining maker)) = Some l1"
      "\<not> Order.qty_remaining maker - std_min r (Order.qty_remaining maker) <=s 0"
      "std_min r (Order.qty_remaining maker) = r"
      "st1 = (b\<lparr>order_pool := pool_set (order_pool b) (head_idx l)
                 (maker\<lparr>Order.qty_remaining :=
                          Order.qty_remaining maker - r\<rparr>),
                 total_trades := total_trades b + 1,
                 total_volume := total_volume b + r\<rparr>,
              l1, 0, Suc n,
              emit_trade cb (new_Trade (Order.order_id maker) oid (Order.trader_id maker) tid
                               (Order.price maker) r s) env)"
proof -
  from assms obtain maker l1 where
    maker: "pool_at (order_pool b) (head_idx l) = Some maker"
    and l1: "reduce_qty dbg l (std_min r (Order.qty_remaining maker)) = Some l1"
    by (auto simp: match_step_def Let_def front_idx_def split: option.splits)
  let ?fill = "std_min r (Order.qty_remaining maker)"
  let ?p1 = "pool_set (order_pool b) (head_idx l)
               (maker\<lparr>Order.qty_remaining := Order.qty_remaining maker - ?fill\<rparr>)"
  show thesis
  proof (cases "Order.qty_remaining maker - ?fill <=s 0")
    case True
    with assms maker l1 obtain p2 l2 where rm: "remove ?p1 l1 (head_idx l) = Some (p2, l2)"
      by (auto simp: match_step_def Let_def front_idx_def split: option.splits)
    with assms maker l1 True obtain maker2 where m2: "pool_at p2 (head_idx l) = Some maker2"
      by (auto simp: match_step_def Let_def front_idx_def split: option.splits)
    with assms maker l1 True rm obtain p3 where de: "deallocate p2 (head_idx l) = Some p3"
      by (auto simp: match_step_def Let_def front_idx_def split: option.splits)
    show thesis
      by (rule unlinked [OF maker l1 True rm m2 de])
         (use assms maker l1 True rm m2 de in
           \<open>auto simp: match_step_def Let_def front_idx_def\<close>)
  next
    case False
    then have eq: "?fill = r"
      by (auto simp: std_min_def split: if_splits)
    show thesis
      by (rule kept [OF maker l1 False eq])
         (use assms maker l1 False eq in
           \<open>auto simp: match_step_def Let_def front_idx_def\<close>)
  qed
qed

lemma match_step_pool_facts:
  assumes "match_step dbg cb oid tid s (b, l, r, n, env) = Some (b1, l1, r1, n1, env1)"
  shows "capacity (order_pool b1) = capacity (order_pool b)"
    and "free_head (order_pool b) \<noteq> INVALID_POOL_INDEX
         \<Longrightarrow> free_head (order_pool b1) \<noteq> INVALID_POOL_INDEX"
    and "order_map b1 x = None \<or> order_map b1 x = order_map b x"
    and "pool_at (order_pool b) j = None \<Longrightarrow> pool_at (order_pool b1) j = None"
    and "\<not> 0 <s r1 \<or> free_head (order_pool b1) \<noteq> INVALID_POOL_INDEX"
    and "n1 = Suc n"
    and "bids b1 = bids b" and "asks b1 = asks b"
proof -
  from assms show "capacity (order_pool b1) = capacity (order_pool b)"
    by (cases rule: match_step_cases)
       (auto dest!: deallocate_SomeD remove_fieldsD)
  from assms show "order_map b1 x = None \<or> order_map b1 x = order_map b x"
    by (cases rule: match_step_cases) auto
  from assms show "n1 = Suc n" "bids b1 = bids b" "asks b1 = asks b"
    by (cases rule: match_step_cases; simp)+
  from assms show "\<not> 0 <s r1 \<or> free_head (order_pool b1) \<noteq> INVALID_POOL_INDEX"
    by (cases rule: match_step_cases) (auto dest!: deallocate_SomeD)
  from assms show "free_head (order_pool b1) \<noteq> INVALID_POOL_INDEX"
    if "free_head (order_pool b) \<noteq> INVALID_POOL_INDEX"
    using that by (cases rule: match_step_cases) (auto dest!: deallocate_SomeD)
  from assms show "pool_at (order_pool b1) j = None" if "pool_at (order_pool b) j = None"
    using that
    by (cases rule: match_step_cases)
       (auto simp: pool_at_pool_set dest!: deallocate_SomeD remove_fieldsD split: if_splits)
qed

section \<open>Frame properties of matching\<close>

lemma match_order_free_head:
  assumes "match_order dbg cb b oid tid s p q mk env = Some (b', r', n', env')"
    and "free_head (order_pool b) \<noteq> INVALID_POOL_INDEX"
  shows "free_head (order_pool b') \<noteq> INVALID_POOL_INDEX"
proof -
  have "(\<lambda>(pl, om, tt, tv, r, n, e). free_head pl \<noteq> INVALID_POOL_INDEX)
          (order_pool b', order_map b', total_trades b', total_volume b', r', n', env')"
    by (rule match_order_rule [OF assms(1)])
       (use assms(2) in \<open>auto dest: match_step_pool_facts(2)\<close>)
  then show ?thesis by simp
qed

lemma match_order_order_map:
  assumes "match_order dbg cb b oid tid s p q mk env = Some (b', r', n', env')"
  shows "order_map b' x = None \<or> order_map b' x = order_map b x"
proof -
  have "(\<lambda>(pl, om, tt, tv, r, n, e). om x = None \<or> om x = order_map b x)
          (order_pool b', order_map b', total_trades b', total_volume b', r', n', env')"
    by (rule match_order_rule [OF assms(1)])
       (use match_step_pool_facts(3) in \<open>fastforce+\<close>)
  then show ?thesis by simp
qed

lemma match_order_no_new_slot:
  assumes "match_order dbg cb b oid tid s p q mk env = Some (b', r', n', env')"
    and "pool_at (order_pool b) j = None"
  shows "pool_at (order_pool b') j = None"
proof -
  have "(\<lambda>(pl, om, tt, tv, r, n, e). pool_at pl j = None)
          (order_pool b', order_map b', total_trades b', total_volume b', r', n', env')"
    by (rule match_order_rule [OF assms(1)])
       (use assms(2) in \<open>auto dest: match_step_pool_facts(4)\<close>)
  then show ?thesis by simp
qed


lemma match_order_empty_side:
  assumes "(if s = Buy then asks b else bids b) = []"
  shows "match_order dbg cb b oid tid s p q mk env = Some (b, q, 0, env)"
  using assms by (auto simp: match_order_def split: if_splits)

lemma remove_order_internal_facts:
  assumes "remove_order_internal b i = Some b1"
  shows "free_head (order_pool b1) \<noteq> INVALID_POOL_INDEX" "order_map b1 = order_map b"
        "total_trades b1 = total_trades b" "total_volume b1 = total_volume b"
  using assms
  by (auto simp: remove_order_internal_def Let_def split: option.splits if_splits
           dest!: deallocate_SomeD)

lemma add_limit_internal_result:
  assumes "add_limit_internal dbg cb b oid tid s p q env = Some (b', env', resp)"
    and "order_map b oid = None" and "free_head (order_pool b) \<noteq> INVALID_POOL_INDEX"
  shows "result resp = Accepted \<or> result resp = PartiallyFilled \<or> result resp = FullyFilled"
proof -
  from assms(1,2) obtain b1 r n env1 where
    mo: "match_order dbg cb b oid tid s p q False env = Some (b1, r, n, env1)"
    by (auto simp: add_limit_internal_def split: option.splits)
  from match_order_free_head [OF mo assms(3)]
  have "allocate (order_pool b1) x \<noteq> (y, INVALID_POOL_INDEX)" for x y
    by (auto simp: allocate_def Let_def)
  with assms(1,2) mo show ?thesis
    by (auto simp: add_limit_internal_def Let_def split: option.splits if_splits prod.splits)
qed

section \<open>The branches of modify\<close>

lemma modify_codes:
  assumes "modify dbg cb b oid new_qty new_price env = Some (b', env', resp)"
  shows "(result resp = Modified \<or> result resp = Accepted \<or> result resp = PartiallyFilled
          \<or> result resp = FullyFilled \<or> result resp = NotFound)
         \<and> (result resp = NotFound \<longleftrightarrow> order_map b oid = None)"
proof (cases "order_map b oid")
  case None
  with assms show ?thesis by (auto simp: modify_def new_response_def)
next
  case (Some pool_idx)
  with assms obtain ord where ord: "pool_at (order_pool b) pool_idx = Some ord"
    by (auto simp: modify_def split: option.splits)
  show ?thesis
  proof (cases "(new_price \<noteq> 0 \<and> new_price \<noteq> Order.price ord)
                \<or> \<not> new_qty <s Order.qty_remaining ord")
    case True
    with assms Some ord obtain b1 p1 where
      b1: "remove_order_internal b pool_idx = Some b1"
      and al: "add_limit_internal dbg cb (b1\<lparr>order_map := (order_map b1)(oid := None)\<rparr>)
                 oid (Order.trader_id ord) (Order.side ord) p1 new_qty env
               = Some (b', env', resp)"
      by (auto simp: modify_def split: option.splits if_splits)
    from add_limit_internal_result [OF al] remove_order_internal_facts(1) [OF b1]
    show ?thesis using Some by auto
  next
    case False
    with assms Some ord show ?thesis
      by (auto simp: modify_def Let_def new_response_def split: option.splits if_splits)
  qed
qed

section \<open>Chains of orders\<close>

lemma dll_live: "dll f prv h xs \<Longrightarrow> x \<in> set xs \<Longrightarrow> f x \<noteq> None"
  by (induction xs arbitrary: prv h) (auto split: option.splits)

lemma dll_head: "dll f prv h xs \<Longrightarrow> h = (if xs = [] then INVALID_POOL_INDEX else hd xs)"
  by (cases xs) auto

lemma dll_frame:
  assumes "\<And>x. x \<in> set xs \<Longrightarrow> map_option links (f' x) = map_option links (f x)"
  shows "dll f' prv h xs = dll f prv h xs"
  using assms
proof (induction xs arbitrary: prv h)
  case Nil
  then show ?case by simp
next
  case (Cons x xs)
  from Cons.prems [of x] have "map_option links (f' x) = map_option links (f x)" by simp
  moreover have "dll f' p g xs = dll f p g xs" for p g
    by (rule Cons.IH) (simp add: Cons.prems)
  ultimately show ?case
    by (auto simp: links_def split: option.splits)
qed

lemma dll_last:
  "dll f prv h xs \<Longrightarrow> xs \<noteq> [] \<Longrightarrow> \<exists>ord. f (last xs) = Some ord \<and> next_idx ord = INVALID_POOL_INDEX"
  by (induction xs arbitrary: prv h) (auto split: option.splits)

text \<open>In a chain whose members are not \<open>INVALID_POOL_INDEX\<close>, only the last order has no
  successor and only the first has the predecessor \<open>prv\<close>.\<close>

lemma dll_next_invalid:
  "dll f prv h xs \<Longrightarrow> INVALID_POOL_INDEX \<notin> set xs \<Longrightarrow> x \<in> set xs \<Longrightarrow> f x = Some ord
   \<Longrightarrow> next_idx ord = INVALID_POOL_INDEX \<Longrightarrow> x = last xs"
proof (induction xs arbitrary: prv h)
  case Nil
  then show ?case by simp
next
  case (Cons y ys)
  show ?case
  proof (cases "ys = []")
    case True
    with Cons.prems show ?thesis by simp
  next
    case False
    then obtain z zs where ys: "ys = z # zs" by (cases ys) auto
    show ?thesis
    proof (cases "x = y")
      case True
      with Cons.prems ys show ?thesis by (auto split: option.splits)
    next
      case False
      with Cons.prems obtain oy where "f y = Some oy" "dll f y (next_idx oy) ys"
        by (auto split: option.splits)
      from Cons.IH [OF this(2)] Cons.prems False \<open>ys \<noteq> []\<close> show ?thesis by auto
    qed
  qed
qed

lemma dll_prev_mem:
  "dll f prv h xs \<Longrightarrow> x \<in> set xs \<Longrightarrow> f x = Some ord \<Longrightarrow> x = hd xs \<or> prev_idx ord \<in> set xs"
proof (induction xs arbitrary: prv h)
  case Nil
  then show ?case by simp
next
  case (Cons y ys)
  show ?case
  proof (cases "x = y")
    case True
    then show ?thesis by simp
  next
    case False
    with Cons.prems obtain oy where oy: "f y = Some oy" "dll f y (next_idx oy) ys"
      by (auto split: option.splits)
    from False Cons.prems have xin: "x \<in> set ys" by simp
    from Cons.IH [OF oy(2) xin Cons.prems(3)] show ?thesis
    proof
      assume "x = hd ys"
      with xin oy(2) Cons.prems(3) have "prev_idx ord = y"
        by (cases ys) (auto split: option.splits)
      then show ?thesis by simp
    next
      assume "prev_idx ord \<in> set ys"
      then show ?thesis by simp
    qed
  qed
qed

lemma dll_prev_first:
  "dll f prv h xs \<Longrightarrow> prv \<notin> set xs \<Longrightarrow> x \<in> set xs \<Longrightarrow> f x = Some ord
   \<Longrightarrow> prev_idx ord = prv \<Longrightarrow> x = hd xs"
  using dll_prev_mem by fastforce

lemma dll_hd_prev:
  "dll f prv h xs \<Longrightarrow> xs \<noteq> [] \<Longrightarrow> \<exists>ord. f (hd xs) = Some ord \<and> prev_idx ord = prv"
  by (cases xs) (auto split: option.splits)

lemma dll_split:
  "dll f prv h (as @ x # bs) \<Longrightarrow>
   \<exists>ord. f x = Some ord \<and> prev_idx ord = (if as = [] then prv else last as)
        \<and> next_idx ord = (if bs = [] then INVALID_POOL_INDEX else hd bs)"
proof (induction as arbitrary: prv h)
  case Nil
  then show ?case by (cases bs) (auto split: option.splits)
next
  case (Cons a as)
  then obtain oa where "f a = Some oa" "dll f a (next_idx oa) (as @ x # bs)"
    by (auto split: option.splits)
  from Cons.IH [OF this(2)] show ?case by auto
qed

lemma dll_snoc:
  assumes "dll f prv h xs" and "x \<notin> set xs" and "distinct xs"
    and "INVALID_POOL_INDEX \<notin> set xs" and "xs = [] \<Longrightarrow> prv = INVALID_POOL_INDEX"
  shows "dll (snoc_fun f (if xs = [] then prv else last xs) x ord) prv
           (if xs = [] then x else h) (xs @ [x])"
  using assms
proof (induction xs arbitrary: prv h)
  case Nil
  then show ?case by (simp add: snoc_fun_def)
next
  case (Cons y ys)
  from Cons.prems obtain oy where
    oy: "f y = Some oy" "prev_idx oy = prv" "dll f y (next_idx oy) ys" and hy: "h = y"
    by (auto split: option.splits)
  show ?case
  proof (cases "ys = []")
    case True
    with oy hy Cons.prems show ?thesis
      by (auto simp: snoc_fun_def)
  next
    case False
    let ?g = "snoc_fun f (last ys) x ord"
    from False have "last ys \<in> set ys" by simp
    with Cons.prems have ly: "last ys \<noteq> y" "last ys \<noteq> INVALID_POOL_INDEX" "x \<noteq> y"
      by auto
    have "dll (snoc_fun f (if ys = [] then y else last ys) x ord) y
            (if ys = [] then x else next_idx oy) (ys @ [x])"
      by (rule Cons.IH [OF oy(3)]) (use Cons.prems False in auto)
    with False have "dll ?g y (next_idx oy) (ys @ [x])" by simp
    moreover have "?g y = Some oy"
      using ly oy by (simp add: snoc_fun_def)
    ultimately show ?thesis using False hy oy by simp
  qed
qed

lemma rem_fun_other:
  "j \<noteq> x \<Longrightarrow> j \<noteq> prev_idx ord \<Longrightarrow> j \<noteq> next_idx ord \<Longrightarrow> rem_fun f x ord j = f j"
  by (simp add: rem_fun_def Let_def)

lemma dll_remove:
  assumes "dll f prv h xs" and "distinct xs" and "x \<in> set xs" and "prv \<notin> set xs"
    and "INVALID_POOL_INDEX \<notin> set xs" and "f x = Some ord"
  shows "dll (rem_fun f x ord) prv (if x = hd xs then next_idx ord else h) (remove1 x xs)"
  using assms
proof (induction xs arbitrary: prv h)
  case Nil
  then show ?case by simp
next
  case (Cons y ys)
  from Cons.prems obtain oy where
    oy: "f y = Some oy" "prev_idx oy = prv" "dll f y (next_idx oy) ys" and hy: "h = y"
    by (auto split: option.splits)
  let ?g = "rem_fun f x ord"
  show ?case
  proof (cases "x = y")
    case True
    with oy Cons.prems have ord: "ord = oy" by simp
    show ?thesis
    proof (cases ys)
      case Nil
      with oy True ord show ?thesis by simp
    next
      case (Cons z zs)
      with oy obtain oz where
        oz: "next_idx oy = z" "f z = Some oz" "prev_idx oz = y" "dll f z (next_idx oz) zs"
        by (auto split: option.splits)
      from Cons Cons.prems True \<open>distinct (y # ys)\<close> \<open>prv \<notin> set (y # ys)\<close>
        \<open>INVALID_POOL_INDEX \<notin> set (y # ys)\<close>
      have ne: "z \<noteq> y" "z \<noteq> prv" "z \<noteq> INVALID_POOL_INDEX" "z \<notin> set zs" "y \<notin> set zs"
        "prv \<notin> set zs"
        by auto
      have gz: "?g z = Some (oz\<lparr>prev_idx := prv\<rparr>)"
        using ne oz ord oy True by (auto simp: rem_fun_def Let_def)
      have "dll ?g z (next_idx oz) zs = dll f z (next_idx oz) zs"
      proof (rule dll_frame)
        fix j assume "j \<in> set zs"
        with ne True ord oy oz have "j \<noteq> x" "j \<noteq> prev_idx ord" "j \<noteq> next_idx ord" by auto
        then show "map_option links (?g j) = map_option links (f j)"
          by (simp add: rem_fun_other)
      qed
      with oz have "dll ?g z (next_idx oz) zs" by simp
      with gz Cons True ord oz show ?thesis by simp
    qed
  next
    case False
    with Cons.prems have xin: "x \<in> set ys" by simp
    have ih: "dll ?g y (if x = hd ys then next_idx ord else next_idx oy) (remove1 x ys)"
      by (rule Cons.IH [OF oy(3)]) (use Cons.prems xin in auto)
    from xin obtain as bs where ys: "ys = as @ x # bs" by (meson split_list)
    from dll_split [OF oy(3) [unfolded ys]] Cons.prems(6)
    have lk: "prev_idx ord = (if as = [] then y else last as)"
      "next_idx ord = (if bs = [] then INVALID_POOL_INDEX else hd bs)"
      by auto
    from Cons.prems ys have d: "y \<notin> set as" "y \<notin> set bs" "y \<noteq> x"
      "y \<noteq> INVALID_POOL_INDEX" "prv \<noteq> y"
      by auto
    have nxt: "next_idx ord \<noteq> y"
      using lk d by (cases bs) auto
    have gy: "?g y = Some (if x = hd ys then oy\<lparr>next_idx := next_idx ord\<rparr> else oy)"
    proof (cases "as = []")
      case True
      with lk ys d nxt oy show ?thesis by (auto simp: rem_fun_def Let_def)
    next
      case False
      then have "last as \<in> set as" by simp
      with d have "last as \<noteq> y" by auto
      moreover from False ys Cons.prems have "x \<noteq> hd ys" by (cases as) auto
      ultimately show ?thesis using False lk d nxt oy by (auto simp: rem_fun_def Let_def)
    qed
    from gy ih oy hy False show ?thesis by (auto split: if_splits)
  qed
qed

section \<open>Levels and their chains\<close>

lemma pool_frame_refl [simp]: "pool_frame p p"
  by (simp add: pool_frame_def)

lemma pool_frame_trans: "pool_frame p q \<Longrightarrow> pool_frame q r \<Longrightarrow> pool_frame p r"
  by (simp add: pool_frame_def)

lemma pool_at_pool_set_live:
  "pool_at p i = Some ord \<Longrightarrow> pool_at (pool_set p i v) = (pool_at p)(i \<mapsto> v)"
  by (auto simp: pool_at_pool_set fun_eq_iff dest: pool_at_Some_valid)

lemma pool_frame_pool_set:
  "pool_at p i = Some ord \<Longrightarrow> static v = static ord \<Longrightarrow> pool_frame p (pool_set p i v)"
proof -
  assume a: "pool_at p i = Some ord" "static v = static ord"
  have "map_option static (pool_at (pool_set p i v) j) = map_option static (pool_at p j)" for j
    using a by (simp add: pool_at_pool_set_live [OF a(1)])
  moreover have "next_free (storage (pool_set p i v) j) = next_free (storage p j)" for j
    by (simp add: pool_set_def)
  ultimately show ?thesis by (simp add: pool_frame_def)
qed

lemma static_updates [simp]:
  "static (ord\<lparr>next_idx := a\<rparr>) = static ord"
  "static (ord\<lparr>prev_idx := a\<rparr>) = static ord"
  "static (ord\<lparr>Order.qty_remaining := q\<rparr>) = static ord"
  by (simp_all add: static_def)

lemma push_back_Some:
  assumes "push_back p l x = Some (p', l')" and "pool_at p x = Some ord" and "tail_idx l \<noteq> x"
  shows "pool_at p' = snoc_fun (pool_at p) (tail_idx l) x ord
         \<and> head_idx l' = (if tail_idx l \<noteq> INVALID_POOL_INDEX then head_idx l else x)
         \<and> tail_idx l' = x \<and> order_count l' = order_count l + 1
         \<and> PriceLevel.price l' = PriceLevel.price l \<and> pool_frame p p'"
proof -
  let ?o1 = "ord\<lparr>prev_idx := tail_idx l, next_idx := INVALID_POOL_INDEX\<rparr>"
  let ?p1 = "pool_set p x ?o1"
  have f1: "pool_at ?p1 = (pool_at p)(x \<mapsto> ?o1)"
    by (rule pool_at_pool_set_live [OF assms(2)])
  have fr1: "pool_frame p ?p1"
    by (rule pool_frame_pool_set [OF assms(2)]) simp
  show ?thesis
  proof (cases "tail_idx l \<noteq> INVALID_POOL_INDEX")
    case True
    with assms obtain t where t: "pool_at ?p1 (tail_idx l) = Some t"
      by (auto simp: push_back_def Let_def split: option.splits)
    let ?p2 = "pool_set ?p1 (tail_idx l) (t\<lparr>next_idx := x\<rparr>)"
    have f2: "pool_at ?p2 = (pool_at ?p1)(tail_idx l \<mapsto> t\<lparr>next_idx := x\<rparr>)"
      by (rule pool_at_pool_set_live [OF t])
    have fr2: "pool_frame ?p1 ?p2"
      by (rule pool_frame_pool_set [OF t]) simp
    from assms True t f1 f2 have
      "p' = ?p2" "l' = l\<lparr>tail_idx := x, total_qty := total_qty l + Order.qty_remaining ?o1,
                         order_count := order_count l + 1\<rparr>"
      by (auto simp: push_back_def Let_def split: option.splits)
    with True t f1 f2 pool_frame_trans [OF fr1 fr2] show ?thesis
      by (auto simp: snoc_fun_def Let_def)
  next
    case False
    with assms f1 have
      "p' = ?p1" "l' = l\<lparr>head_idx := x, tail_idx := x,
                         total_qty := total_qty l + Order.qty_remaining ?o1,
                         order_count := order_count l + 1\<rparr>"
      by (auto simp: push_back_def Let_def split: option.splits)
    with False f1 fr1 show ?thesis
      by (auto simp: snoc_fun_def Let_def)
  qed
qed

lemma remove_Some:
  assumes "remove p l x = Some (p', l')" and "pool_at p x = Some ord"
    and "prev_idx ord \<noteq> x" and "next_idx ord \<noteq> x"
  shows "pool_at p' = rem_fun (pool_at p) x ord
         \<and> head_idx l' = (if prev_idx ord \<noteq> INVALID_POOL_INDEX then head_idx l else next_idx ord)
         \<and> tail_idx l' = (if next_idx ord \<noteq> INVALID_POOL_INDEX then tail_idx l else prev_idx ord)
         \<and> order_count l' = order_count l - 1
         \<and> PriceLevel.price l' = PriceLevel.price l \<and> pool_frame p p'"
proof -
  define p1 where "p1 = (if prev_idx ord \<noteq> INVALID_POOL_INDEX
      then pool_set p (prev_idx ord) ((the (pool_at p (prev_idx ord)))\<lparr>next_idx := next_idx ord\<rparr>)
      else p)"
  define l1 where "l1 = (if prev_idx ord \<noteq> INVALID_POOL_INDEX then l
      else l\<lparr>head_idx := next_idx ord\<rparr>)"
  from assms(1,2) have pr: "prev_idx ord \<noteq> INVALID_POOL_INDEX \<Longrightarrow> pool_at p (prev_idx ord) \<noteq> None"
    by (auto simp: remove_def split: option.splits if_splits)
  have f1: "pool_at p1 = (if prev_idx ord \<noteq> INVALID_POOL_INDEX
      then (pool_at p)(prev_idx ord \<mapsto> (the (pool_at p (prev_idx ord)))\<lparr>next_idx := next_idx ord\<rparr>)
      else pool_at p)"
    using pr by (auto simp: p1_def pool_at_pool_set_live)
  have fr1: "pool_frame p p1"
  proof (cases "prev_idx ord \<noteq> INVALID_POOL_INDEX")
    case True
    with pr obtain y where y: "pool_at p (prev_idx ord) = Some y" by auto
    from True y pool_frame_pool_set [OF y, of "y\<lparr>next_idx := next_idx ord\<rparr>"]
    show ?thesis by (simp add: p1_def)
  next
    case False
    then show ?thesis by (simp add: p1_def)
  qed
  have x1: "pool_at p1 x = Some ord"
    using assms(2,3) by (simp add: f1)
  define p2 where "p2 = (if next_idx ord \<noteq> INVALID_POOL_INDEX
      then pool_set p1 (next_idx ord) ((the (pool_at p1 (next_idx ord)))\<lparr>prev_idx := prev_idx ord\<rparr>)
      else p1)"
  define l2 where "l2 = (if next_idx ord \<noteq> INVALID_POOL_INDEX then l1
      else l1\<lparr>tail_idx := prev_idx ord\<rparr>)"
  from assms(1,2) x1 have nx: "next_idx ord \<noteq> INVALID_POOL_INDEX \<Longrightarrow> pool_at p1 (next_idx ord) \<noteq> None"
    by (auto simp: remove_def p1_def split: option.splits if_splits)
  have f2: "pool_at p2 = (if next_idx ord \<noteq> INVALID_POOL_INDEX
      then (pool_at p1)(next_idx ord \<mapsto> (the (pool_at p1 (next_idx ord)))\<lparr>prev_idx := prev_idx ord\<rparr>)
      else pool_at p1)"
    using nx by (auto simp: p2_def pool_at_pool_set_live)
  have fr2: "pool_frame p1 p2"
  proof (cases "next_idx ord \<noteq> INVALID_POOL_INDEX")
    case True
    with nx obtain y where y: "pool_at p1 (next_idx ord) = Some y" by auto
    from True y pool_frame_pool_set [OF y, of "y\<lparr>prev_idx := prev_idx ord\<rparr>"]
    show ?thesis by (simp add: p2_def)
  next
    case False
    then show ?thesis by (simp add: p2_def)
  qed
  have x2: "pool_at p2 x = Some ord"
    using x1 assms(4) by (simp add: f2)
  let ?o3 = "ord\<lparr>prev_idx := INVALID_POOL_INDEX, next_idx := INVALID_POOL_INDEX\<rparr>"
  have res: "p' = pool_set p2 x ?o3"
    "l' = l2\<lparr>total_qty := total_qty l2 - Order.qty_remaining ord,
            order_count := order_count l2 - 1\<rparr>"
    using assms(1,2) x1 x2 pr nx
    by (auto simp: remove_def p1_def p2_def l1_def l2_def split: option.splits if_splits)
  have f3: "pool_at p' = (pool_at p2)(x \<mapsto> ?o3)"
    unfolding res by (rule pool_at_pool_set_live [OF x2])
  have fr3: "pool_frame p2 p'"
    unfolding res by (rule pool_frame_pool_set [OF x2]) simp
  have "pool_at p' = rem_fun (pool_at p) x ord"
    by (simp add: f3 f2 f1 rem_fun_def Let_def)
  moreover have "pool_frame p p'"
    using fr1 fr2 fr3 by (blast intro: pool_frame_trans)
  ultimately show ?thesis
    by (auto simp: res l2_def l1_def)
qed

lemma pool_at_invalid [simp]: "pool_at p INVALID_POOL_INDEX = None"
  by (simp add: pool_at_def INVALID_POOL_INDEX_def word_order.extremum_strict)

lemma level_ok_total_qty [simp]:
  "level_ok f s (l\<lparr>total_qty := t\<rparr>) xs = level_ok f s l xs"
  by (simp add: level_ok_def)

lemma level_ok_live: "level_ok f s l xs \<Longrightarrow> x \<in> set xs \<Longrightarrow> f x \<noteq> None"
  by (auto simp: level_ok_def)

lemma level_ok_frame:
  assumes "level_ok f s l xs"
    and "\<And>x. x \<in> set xs \<Longrightarrow> map_option links (f' x) = map_option links (f x)"
    and "\<And>x. x \<in> set xs \<Longrightarrow> map_option static (f' x) = map_option static (f x)"
  shows "level_ok f' s l xs"
proof -
  have "dll f' INVALID_POOL_INDEX (head_idx l) xs = dll f INVALID_POOL_INDEX (head_idx l) xs"
    by (rule dll_frame) (rule assms(2))
  moreover have "\<exists>ord. f' x = Some ord \<and> Order.side ord = s \<and> Order.price ord = PriceLevel.price l"
    if "x \<in> set xs" for x
  proof -
    from assms(1) that obtain ord where
      "f x = Some ord" "Order.side ord = s" "Order.price ord = PriceLevel.price l"
      by (auto simp: level_ok_def)
    with assms(3) [OF that] show ?thesis by (auto simp: static_def)
  qed
  ultimately show ?thesis using assms(1) by (simp add: level_ok_def)
qed

lemma level_ok_same:
  "level_ok f s l xs \<Longrightarrow> (\<And>x. x \<in> set xs \<Longrightarrow> f' x = f x) \<Longrightarrow> level_ok f' s l xs"
  by (rule level_ok_frame) simp_all

lemma distinct_valid_length:
  assumes "distinct xs" and "INVALID_POOL_INDEX \<notin> set xs"
  shows "length xs < 2 ^ 32 - 1 + 1 \<and> length xs \<le> 2 ^ 32 - 1"
proof -
  have "set xs \<subseteq> UNIV - {INVALID_POOL_INDEX}" using assms(2) by auto
  then have "card (set xs) \<le> card (UNIV - {INVALID_POOL_INDEX :: 32 word})"
    by (intro card_mono) auto
  also have "\<dots> = 2 ^ 32 - 1" by (simp add: card_Diff_singleton card_word)
  finally show ?thesis using assms(1) by (simp add: distinct_card)
qed

lemma unat_count_succ:
  assumes "unat (c :: 32 word) = n" and "Suc n \<le> 2 ^ 32 - 1"
  shows "unat (c + 1) = Suc n"
proof -
  have "unat c + unat (1 :: 32 word) < 2 ^ LENGTH(32)" using assms by simp
  then have "unat (c + 1) = unat c + unat (1 :: 32 word)"
    by (simp only: unat_add_lem)
  with assms show ?thesis by simp
qed

lemma level_ok_push_back:
  assumes pb: "push_back p l x = Some (p', l')"
    and ok: "level_ok (pool_at p) s l xs"
    and x: "x \<notin> set xs" and d: "distinct xs"
    and ord: "pool_at p x = Some ord" "Order.side ord = s" "Order.price ord = PriceLevel.price l"
  shows "level_ok (pool_at p') s l' (xs @ [x]) \<and> pool_frame p p'
         \<and> (\<forall>j. j \<notin> set xs \<longrightarrow> j \<noteq> x \<longrightarrow> pool_at p' j = pool_at p j)
         \<and> PriceLevel.price l' = PriceLevel.price l"
proof -
  let ?f = "pool_at p"
  from ok have live: "\<And>y. y \<in> set xs \<Longrightarrow> ?f y \<noteq> None" by (rule level_ok_live)
  then have inv: "INVALID_POOL_INDEX \<notin> set xs" by force
  from ord have xv: "x \<noteq> INVALID_POOL_INDEX" by auto
  from ok have tl: "tail_idx l = (if xs = [] then INVALID_POOL_INDEX else last xs)"
    and ch: "dll ?f INVALID_POOL_INDEX (head_idx l) xs"
    and cnt: "unat (order_count l) = length xs"
    by (auto simp: level_ok_def)
  have lx: "last xs \<noteq> INVALID_POOL_INDEX \<and> last xs \<noteq> x" if "xs \<noteq> []"
    using last_in_set [OF that] inv x by metis
  from tl xv lx have tx: "tail_idx l \<noteq> x" by (auto split: if_splits)
  note sem = push_back_Some [OF pb ord(1) tx]
  let ?g = "snoc_fun ?f (tail_idx l) x ord"
  from sem have g: "pool_at p' = ?g" by simp
  have t_inv: "tail_idx l \<noteq> INVALID_POOL_INDEX \<longleftrightarrow> xs \<noteq> []"
    using tl lx by (auto split: if_splits)
  have ch': "dll ?g INVALID_POOL_INDEX (if xs = [] then x else head_idx l) (xs @ [x])"
    using dll_snoc [OF ch x d inv, of ord] tl by simp
  have hd': "head_idx l' = (if xs = [] then x else head_idx l)"
    using sem t_inv by auto
  have len: "Suc (length xs) \<le> 2 ^ 32 - 1"
    using distinct_valid_length [of "xs @ [x]"] d x inv xv by simp
  have cnt': "unat (order_count l') = length (xs @ [x])"
    using sem unat_count_succ [OF cnt len] by simp
  have other: "?g j = ?f j" if "j \<notin> set xs" "j \<noteq> x" for j
    using that tl last_in_set [of xs] by (cases "xs = []") (auto simp: snoc_fun_def Let_def)
  have st: "\<exists>o'. ?g y = Some o' \<and> Order.side o' = s \<and> Order.price o' = PriceLevel.price l"
    if "y \<in> set (xs @ [x])" for y
  proof (cases "y = x")
    case True
    with ord tx show ?thesis by (auto simp: snoc_fun_def Let_def)
  next
    case False
    with that ok obtain oy where
      oy: "?f y = Some oy" "Order.side oy = s" "Order.price oy = PriceLevel.price l"
      by (auto simp: level_ok_def)
    with False show ?thesis by (auto simp: snoc_fun_def Let_def)
  qed
  have "level_ok (pool_at p') s l' (xs @ [x])"
    using ch' hd' cnt' st sem by (simp add: level_ok_def g)
  with sem other g show ?thesis by simp
qed

lemma unat_count_pred:
  assumes "unat (c :: 32 word) = Suc n"
  shows "unat (c - 1) = n"
proof -
  from assms have "c \<noteq> 0" by auto
  then have "unat (c - 1) = unat c - 1" by (simp add: unat_minus_one)
  with assms show ?thesis by simp
qed

lemma level_ok_remove:
  assumes rm: "remove p l x = Some (p', l')"
    and ok: "level_ok (pool_at p) s l xs"
    and x: "x \<in> set xs" and d: "distinct xs"
  shows "level_ok (pool_at p') s l' (remove1 x xs) \<and> pool_frame p p'
         \<and> (\<forall>j. j \<notin> set xs \<longrightarrow> pool_at p' j = pool_at p j)
         \<and> PriceLevel.price l' = PriceLevel.price l"
proof -
  let ?f = "pool_at p"
  from ok have live: "\<And>y. y \<in> set xs \<Longrightarrow> ?f y \<noteq> None" by (rule level_ok_live)
  then have inv: "INVALID_POOL_INDEX \<notin> set xs" by force
  from ok have tl: "tail_idx l = (if xs = [] then INVALID_POOL_INDEX else last xs)"
    and ch: "dll ?f INVALID_POOL_INDEX (head_idx l) xs"
    and cnt: "unat (order_count l) = length xs"
    by (auto simp: level_ok_def)
  from x obtain as bs where xs: "xs = as @ x # bs" by (meson split_list)
  from dll_split [OF ch [unfolded xs]] obtain ord where
    ord: "?f x = Some ord"
    and pv: "prev_idx ord = (if as = [] then INVALID_POOL_INDEX else last as)"
    and nx: "next_idx ord = (if bs = [] then INVALID_POOL_INDEX else hd bs)"
    by auto
  from d xs have dx: "x \<notin> set as" "x \<notin> set bs" "distinct as" "distinct bs"
    "set as \<inter> set bs = {}"
    by auto
  from inv xs have xv: "x \<noteq> INVALID_POOL_INDEX" by auto
  have la: "last as \<in> set as \<and> last as \<noteq> INVALID_POOL_INDEX \<and> last as \<noteq> x"
    if "as \<noteq> []"
    using last_in_set [OF that] inv xs dx by auto
  have hb: "hd bs \<in> set bs \<and> hd bs \<noteq> INVALID_POOL_INDEX \<and> hd bs \<noteq> x"
    if "bs \<noteq> []"
    using hd_in_set [OF that] inv xs dx by auto
  have pvx: "prev_idx ord \<noteq> x" using pv xv la by (cases "as = []") auto
  have nxx: "next_idx ord \<noteq> x" using nx xv hb by (cases "bs = []") auto
  have pv_inv: "prev_idx ord = INVALID_POOL_INDEX \<longleftrightarrow> as = []"
    using pv la by (cases "as = []") auto
  have nx_inv: "next_idx ord = INVALID_POOL_INDEX \<longleftrightarrow> bs = []"
    using nx hb by (cases "bs = []") auto
  note sem = remove_Some [OF rm ord pvx nxx]
  let ?g = "rem_fun ?f x ord"
  from sem have g: "pool_at p' = ?g" by simp
  have r1: "remove1 x xs = as @ bs"
    using dx xs by (simp add: remove1_append)
  have hdx: "x = hd xs \<longleftrightarrow> as = []"
    using xs dx by (cases as) auto
  have ch': "dll ?g INVALID_POOL_INDEX (if x = hd xs then next_idx ord else head_idx l)
               (remove1 x xs)"
    by (rule dll_remove [OF ch d x _ inv ord]) (use inv in simp)
  have hd': "head_idx l' = (if x = hd xs then next_idx ord else head_idx l)"
    using sem pv_inv hdx by auto
  have tl': "tail_idx l' = (if remove1 x xs = [] then INVALID_POOL_INDEX
                            else last (remove1 x xs))"
  proof (cases "bs = []")
    case True
    with sem nx_inv pv r1 show ?thesis by auto
  next
    case False
    with sem nx_inv tl xs r1 show ?thesis by auto
  qed
  have cnt': "unat (order_count l') = length (remove1 x xs)"
  proof -
    from cnt xs have "unat (order_count l) = Suc (length (as @ bs))" by simp
    from unat_count_pred [OF this] sem r1 show ?thesis by simp
  qed
  have other: "?g j = ?f j" if "j \<notin> set xs" for j
  proof -
    from that xs have "j \<noteq> x" by auto
    moreover have "j \<noteq> prev_idx ord \<or> prev_idx ord = INVALID_POOL_INDEX"
      using pv la that xs by (cases "as = []") auto
    moreover have "j \<noteq> next_idx ord \<or> next_idx ord = INVALID_POOL_INDEX"
      using nx hb that xs by (cases "bs = []") auto
    ultimately show ?thesis
      by (auto simp: rem_fun_def Let_def)
  qed
  have st: "\<exists>o'. ?g y = Some o' \<and> Order.side o' = s \<and> Order.price o' = PriceLevel.price l"
    if "y \<in> set (remove1 x xs)" for y
  proof -
    from that r1 xs dx have yx: "y \<noteq> x" "y \<in> set xs" by auto
    with ok obtain oy where
      oy: "?f y = Some oy" "Order.side oy = s" "Order.price oy = PriceLevel.price l"
      by (auto simp: level_ok_def)
    with yx show ?thesis by (auto simp: rem_fun_def Let_def)
  qed
  have "level_ok (pool_at p') s l' (remove1 x xs)"
    using ch' hd' tl' cnt' st sem by (simp add: level_ok_def g)
  with sem other g show ?thesis by simp
qed

section \<open>The freelist\<close>

lemma free_chain_frame:
  assumes "free_chain p h fs"
    and "capacity p' = capacity p"
    and "\<And>x. x \<in> set fs \<Longrightarrow> pool_at p' x = None \<and> next_free (storage p' x) = next_free (storage p x)"
  shows "free_chain p' h fs"
  using assms by (induction fs arbitrary: h) auto

lemma free_chain_free: "free_chain p h fs \<Longrightarrow> x \<in> set fs \<Longrightarrow> pool_at p x = None \<and> x < capacity p"
  by (induction fs arbitrary: h) auto

lemma free_chain_slot:
  "free_chain p h fs \<Longrightarrow> x \<in> set fs \<Longrightarrow> slot (storage p x) = None \<and> x < capacity p"
  by (induction fs arbitrary: h) (auto simp: pool_at_def split: if_splits)

lemma pool_frame_free_ok:
  assumes "pool_frame p p'" and "free_ok p"
  shows "free_ok p'"
proof -
  from assms(2) obtain fs where fs: "free_chain p (free_head p) fs" "distinct fs"
    by (auto simp: free_ok_def)
  have "free_chain p' (free_head p) fs"
  proof (rule free_chain_frame [OF fs(1)])
    show "capacity p' = capacity p" using assms(1) by (simp add: pool_frame_def)
    fix x assume "x \<in> set fs"
    from free_chain_free [OF fs(1) this] have "pool_at p x = None" by simp
    moreover from assms(1) have "map_option static (pool_at p' x) = map_option static (pool_at p x)"
      by (simp add: pool_frame_def)
    ultimately have "pool_at p' x = None" by simp
    with assms(1) show "pool_at p' x = None \<and> next_free (storage p' x) = next_free (storage p x)"
      by (simp add: pool_frame_def)
  qed
  with fs(2) assms(1) show ?thesis by (auto simp: free_ok_def pool_frame_def)
qed

lemma free_ok_deallocate:
  assumes "deallocate p a = Some p'" and "free_ok p"
  shows "free_ok p'"
proof -
  from assms(2) obtain fs where fs: "free_chain p (free_head p) fs" "distinct fs"
    by (auto simp: free_ok_def)
  from assms(1) have a: "a < capacity p" "slot (storage p a) \<noteq> None"
    and p': "p' = p\<lparr>storage := (storage p)(a := \<lparr>slot = None, next_free = free_head p\<rparr>),
                   free_head := a, pool_size := pool_size p - 1\<rparr>"
    by (auto simp: deallocate_def split: if_splits)
  from a have live: "pool_at p a \<noteq> None" by (simp add: pool_at_def)
  with free_chain_free [OF fs(1)] have nin: "a \<notin> set fs" by auto
  have "free_chain p' (free_head p) fs"
    by (rule free_chain_frame [OF fs(1)])
       (use nin free_chain_slot [OF fs(1)] in \<open>auto simp: p' pool_at_def\<close>)
  with a have "free_chain p' a (a # fs)" by (simp add: p' pool_at_def)
  with nin fs(2) show ?thesis by (auto simp: free_ok_def p' intro!: exI [of _ "a # fs"])
qed

lemma free_ok_allocate:
  assumes "allocate p ord = (p', k)" and "k \<noteq> INVALID_POOL_INDEX" and "free_ok p"
  shows "pool_at p k = None \<and> pool_at p' = (pool_at p)(k \<mapsto> ord) \<and> free_ok p'
         \<and> capacity p' = capacity p"
proof -
  from assms(3) obtain fs where fs: "free_chain p (free_head p) fs" "distinct fs"
    by (auto simp: free_ok_def)
  from assms(1,2) have k: "k = free_head p" "free_head p \<noteq> INVALID_POOL_INDEX"
    and p': "p' = p\<lparr>storage := (storage p)(k := (storage p k)\<lparr>slot := Some ord\<rparr>),
                   free_head := next_free (storage p k), pool_size := pool_size p + 1\<rparr>"
    by (auto simp: allocate_def Let_def split: if_splits)
  from fs(1) k obtain gs where gs: "fs = k # gs" by (cases fs) auto
  with fs have kf: "k < capacity p" "pool_at p k = None"
    "free_chain p (next_free (storage p k)) gs" "k \<notin> set gs" "distinct gs"
    by auto
  have "free_chain p' (next_free (storage p k)) gs"
    by (rule free_chain_frame [OF kf(3)])
       (use kf(4) free_chain_slot [OF kf(3)] in \<open>auto simp: p' pool_at_def\<close>)
  then have "free_ok p'" using kf(5) by (auto simp: free_ok_def p')
  moreover have "pool_at p' = (pool_at p)(k \<mapsto> ord)"
    using kf(1) by (auto simp: p' pool_at_def fun_eq_iff)
  ultimately show ?thesis using kf by (simp add: p')
qed

lemma unat_of_nat32: "n < 2 ^ 32 \<Longrightarrow> unat (of_nat n :: 32 word) = n"
  by (simp add: unsigned_of_nat take_bit_nat_eq_self)

lemma free_chain_new:
  assumes "n \<le> unat cap"
  shows "free_chain (new_ObjectPool cap)
           (if n < unat cap then of_nat n else INVALID_POOL_INDEX)
           (map of_nat [n ..< unat cap])"
  using assms
proof (induction "unat cap - n" arbitrary: n)
  case 0
  then show ?case by simp
next
  case (Suc k)
  then have n: "n < unat cap" and k: "k = unat cap - Suc n" and le: "Suc n \<le> unat cap"
    by auto
  have cap: "unat cap < 2 ^ 32" using unsigned_less [of cap] by simp
  with n have n32: "n < 2 ^ 32" "Suc n < 2 ^ 32" by linarith+
  let ?i = "of_nat n :: 32 word"
  have ui: "unat ?i = n" using n32 by (simp add: unat_of_nat32)
  have "?i + 1 = of_nat (Suc n)" by simp
  then have ui1: "unat (?i + 1) = Suc n"
    using n32 unat_of_nat32 [of "Suc n"] by (simp only:)
  have lt: "?i < cap" using ui n by (simp add: word_less_nat_alt)
  have lt1: "?i + 1 < cap \<longleftrightarrow> Suc n < unat cap"
    using ui1 by (simp add: word_less_nat_alt)
  have nf: "next_free (storage (new_ObjectPool cap) ?i)
            = (if Suc n < unat cap then of_nat (Suc n) else INVALID_POOL_INDEX)"
    using lt lt1 by (simp add: new_ObjectPool_def)
  have "free_chain (new_ObjectPool cap)
          (if Suc n < unat cap then of_nat (Suc n) else INVALID_POOL_INDEX)
          (map of_nat [Suc n ..< unat cap])"
    by (rule Suc.hyps(1) [OF k le])
  moreover have "[n ..< unat cap] = n # [Suc n ..< unat cap]"
    using n by (simp add: upt_conv_Cons)
  ultimately show ?case
    using n lt nf by (simp add: new_ObjectPool_def pool_at_def)
qed

lemma free_ok_new: "free_ok (new_ObjectPool cap)"
proof -
  have cap: "unat cap < 2 ^ 32" using unsigned_less [of cap] by simp
  have fh: "free_head (new_ObjectPool cap)
            = (if 0 < unat cap then of_nat 0 else INVALID_POOL_INDEX)"
    by (simp add: new_ObjectPool_def word_less_nat_alt)
  have "inj_on (of_nat :: nat \<Rightarrow> 32 word) {0 ..< unat cap}"
  proof (rule inj_onI)
    fix x y assume "x \<in> {0 ..< unat cap}" "y \<in> {0 ..< unat cap}"
      and e: "(of_nat x :: 32 word) = of_nat y"
    with cap have "x < 2 ^ 32" "y < 2 ^ 32" by auto
    from unat_of_nat32 [OF this(1)] unat_of_nat32 [OF this(2)] e show "x = y" by metis
  qed
  then have "distinct (map (of_nat :: nat \<Rightarrow> 32 word) [0 ..< unat cap])"
    by (simp add: distinct_map)
  moreover from free_chain_new [of 0 cap] fh
  have "free_chain (new_ObjectPool cap) (free_head (new_ObjectPool cap))
          (map of_nat [0 ..< unat cap])"
    by simp
  ultimately show ?thesis
    unfolding free_ok_def by blast
qed

lemma book_inv_new: "book_inv (new_OrderBook cap)"
proof -
  have "pool_at (new_ObjectPool cap) i = None" for i
    by (simp add: new_ObjectPool_def pool_at_def)
  then have "core (new_ObjectPool cap) Map.empty (\<lambda>s. []) (\<lambda>s. [])"
    by (simp add: core_def free_ok_new)
  moreover have "levels_of (new_OrderBook cap) = (\<lambda>s. [])"
    by (simp add: levels_of_def new_OrderBook_def fun_eq_iff)
  ultimately have "core (order_pool (new_OrderBook cap)) (order_map (new_OrderBook cap))
          (levels_of (new_OrderBook cap)) (\<lambda>s. [])"
    by (simp add: new_OrderBook_def)
  then show ?thesis
    by (auto simp: book_inv_def sorted_side_def new_OrderBook_def levels_of_def)
qed

section \<open>Replacing one level of a well-formed book\<close>

lemma chain_set_upd:
  "chain_set (C(s := cs)) = set (concat cs) \<union> set (concat (C (opposite s)))"
  by (cases s) (auto simp: chain_set_def)

lemma list_all2_split:
  assumes "list_all2 P (pre @ l # post) cs"
  obtains cpre xs cpost where "cs = cpre @ xs # cpost" "list_all2 P pre cpre" "P l xs"
    "list_all2 P post cpost" "length cpre = length pre"
  using assms
  by (auto simp: list_all2_append1 list_all2_Cons1 dest: list_all2_lengthD)

lemma distinct_sides_upd:
  assumes "distinct (concat (C Buy) @ concat (C Sell))"
    and "C s = cpre @ xs # cpost"
    and "distinct ys" and "set ys \<subseteq> set xs \<union> N" and "N \<inter> chain_set C = {}"
  shows "distinct (concat ((C(s := cpre @ ys # cpost)) Buy)
                   @ concat ((C(s := cpre @ ys # cpost)) Sell))"
proof (cases s)
  case Buy
  with assms show ?thesis
    by (auto simp: chain_set_def) blast+
next
  case Sell
  with assms show ?thesis
    by (auto simp: chain_set_def) blast+
qed

lemma core_update:
  assumes c: "core p om L C"
    and L: "L s' = pre @ l # post" and C: "C s' = cpre @ xs # cpost"
    and len: "length cpre = length pre"
    and ok: "level_ok (pool_at p') s' l' ys" and dy: "distinct ys"
    and sub: "set ys \<subseteq> set xs \<union> N" and N: "N \<inter> chain_set C = {}"
    and frame: "\<And>j. j \<notin> set xs \<Longrightarrow> j \<notin> N \<Longrightarrow> pool_at p' j = pool_at p j"
    and live: "\<And>i. pool_at p' i \<noteq> None \<Longrightarrow> i \<in> (chain_set C - set xs) \<union> set ys"
    and om: "\<forall>oid i. om' oid = Some i \<longleftrightarrow>
               (\<exists>ord. pool_at p' i = Some ord \<and> Order.order_id ord = oid)"
    and fr: "free_ok p'"
  shows "core p' om' (L(s' := pre @ l' # post)) (C(s' := cpre @ ys # cpost))"
proof -
  let ?f = "pool_at p" and ?f' = "pool_at p'"
  let ?L = "L(s' := pre @ l' # post)" and ?C = "C(s' := cpre @ ys # cpost)"
  from c have all2: "\<And>s. list_all2 (level_ok ?f s) (L s) (C s)"
    and dist: "distinct (concat (C Buy) @ concat (C Sell))"
    by (auto simp: core_def)
  have xs_in: "set xs \<subseteq> set (concat (C s'))" using C by auto
  text \<open>A chain other than \<open>xs\<close> shares no element with \<open>xs\<close> or \<open>N\<close>.\<close>
  have keep: "level_ok ?f' s k zs"
    if "level_ok ?f s k zs" "set zs \<inter> set xs = {}" "set zs \<subseteq> chain_set C" for s k zs
  proof (rule level_ok_same [OF that(1)])
    fix x assume "x \<in> set zs"
    with that N have "x \<notin> set xs" "x \<notin> N" by auto
    then show "?f' x = ?f x" by (rule frame)
  qed
  have other_side: "list_all2 (level_ok ?f' s) (L s) (C s)" if "s \<noteq> s'" for s
  proof (rule list.rel_mono_strong [OF all2 [of s]])
    fix k zs assume "k \<in> set (L s)" "zs \<in> set (C s)" "level_ok ?f s k zs"
    moreover from \<open>zs \<in> set (C s)\<close> that dist xs_in have "set zs \<inter> set xs = {}"
      by (cases s; cases s') (auto simp: disjoint_iff)
    moreover from \<open>zs \<in> set (C s)\<close> have "set zs \<subseteq> chain_set C"
      by (cases s) (auto simp: chain_set_def)
    ultimately show "level_ok ?f' s k zs" by (intro keep)
  qed
  from all2 [of s'] L C len have
    pre2: "list_all2 (level_ok ?f s') pre cpre" and post2: "list_all2 (level_ok ?f s') post cpost"
    by (auto simp: list_all2_append)
  from dist C have dC: "distinct (concat cpre @ xs @ concat cpost)"
    by (cases s') auto
  have pre3: "list_all2 (level_ok ?f' s') pre cpre"
  proof (rule list.rel_mono_strong [OF pre2])
    fix k zs assume "k \<in> set pre" "zs \<in> set cpre" "level_ok ?f s' k zs"
    moreover from \<open>zs \<in> set cpre\<close> dC have "set zs \<inter> set xs = {}" by auto
    moreover from \<open>zs \<in> set cpre\<close> C have "set zs \<subseteq> chain_set C"
      by (cases s') (auto simp: chain_set_def)
    ultimately show "level_ok ?f' s' k zs" by (intro keep)
  qed
  have post3: "list_all2 (level_ok ?f' s') post cpost"
  proof (rule list.rel_mono_strong [OF post2])
    fix k zs assume "k \<in> set post" "zs \<in> set cpost" "level_ok ?f s' k zs"
    moreover from \<open>zs \<in> set cpost\<close> dC have "set zs \<inter> set xs = {}" by auto
    moreover from \<open>zs \<in> set cpost\<close> C have "set zs \<subseteq> chain_set C"
      by (cases s') (auto simp: chain_set_def)
    ultimately show "level_ok ?f' s' k zs" by (intro keep)
  qed
  have a: "list_all2 (level_ok ?f' s) (?L s) (?C s)" for s
    using other_side [of s] pre3 post3 ok len
    by (cases "s = s'") (auto simp: list_all2_append)
  have b: "distinct (concat (?C Buy) @ concat (?C Sell))"
    by (rule distinct_sides_upd [OF dist C dy sub N])
  have d: "i \<in> set (concat (?C Buy)) \<union> set (concat (?C Sell))" if "?f' i \<noteq> None" for i
    using live [OF that] C by (cases s') (auto simp: chain_set_def)
  from a b d om fr show ?thesis
    unfolding core_def by blast
qed

section \<open>The matching loop keeps the book well-formed\<close>

lemma reduce_qty_SomeD: "reduce_qty dbg l q = Some l1 \<Longrightarrow> l1 = l\<lparr>total_qty := total_qty l - q\<rparr>"
  by (auto simp: reduce_qty_def split: if_splits)

lemma pool_frame_static:
  "pool_frame p p' \<Longrightarrow> map_option static (pool_at p' j) = map_option static (pool_at p j)"
  by (simp add: pool_frame_def)

lemma pool_frame_live: "pool_frame p p' \<Longrightarrow> pool_at p' j = None \<longleftrightarrow> pool_at p j = None"
  using pool_frame_static [of p p' j] by (metis map_option_is_None)

lemma pool_frame_ids:
  assumes "pool_frame p p'"
  shows "(\<exists>ord. pool_at p' i = Some ord \<and> Order.order_id ord = oid)
         \<longleftrightarrow> (\<exists>ord. pool_at p i = Some ord \<and> Order.order_id ord = oid)"
proof -
  have "map_option static (pool_at p' i) = map_option static (pool_at p i)"
    by (rule pool_frame_static [OF assms])
  then show ?thesis
    by (cases "pool_at p i"; cases "pool_at p' i") (auto simp: static_def)
qed

lemma core_chain_distinct:
  assumes "core p om L C" and "C s = cpre @ xs # cpost"
  shows "distinct xs" and "set xs \<subseteq> chain_set C"
  using assms by (cases s; auto simp: core_def chain_set_def)+

lemma match_step_core:
  assumes c: "core (order_pool b) (order_map b) L C"
    and L: "L s' = pre @ l # post"
    and ne: "order_count l \<noteq> 0"
    and ms: "match_step dbg cb oid tid s (b, l, r, n, env) = Some (b1, l1, r1, n1, env1)"
  shows "(\<exists>C'. core (order_pool b1) (order_map b1) (L(s' := pre @ l1 # post)) C')
         \<and> PriceLevel.price l1 = PriceLevel.price l
         \<and> (\<exists>maker. pool_at (order_pool b) (head_idx l) = Some maker
               \<and> Order.side maker = s' \<and> Order.price maker = PriceLevel.price l)"
proof -
  let ?p = "order_pool b"
  let ?f = "pool_at ?p"
  from c have all2: "list_all2 (level_ok ?f s') (L s') (C s')"
    and omap: "\<forall>oid i. order_map b oid = Some i \<longleftrightarrow>
                 (\<exists>ord. ?f i = Some ord \<and> Order.order_id ord = oid)"
    and lv: "\<And>i. ?f i \<noteq> None \<Longrightarrow> i \<in> chain_set C"
    and fr: "free_ok ?p"
    by (auto simp: core_def chain_set_def)
  from all2 [unfolded L] obtain cpre xs cpost where
    C: "C s' = cpre @ xs # cpost" and ok: "level_ok ?f s' l xs"
    and len: "length cpre = length pre"
    by (rule list_all2_split)
  note dx = core_chain_distinct [OF c C]
  from ok ne have "xs \<noteq> []" by (auto simp: level_ok_def unat_0_iff)
  then obtain a rest where xs: "xs = a # rest" by (cases xs) auto
  with ok have hd: "head_idx l = a" by (auto simp: level_ok_def)
  from ok xs obtain mk where
    mk: "?f a = Some mk" "Order.side mk = s'" "Order.price mk = PriceLevel.price l"
    by (auto simp: level_ok_def)
  from ms show ?thesis
  proof (cases rule: match_step_cases)
    case (kept maker la)
    with mk hd have maker: "maker = mk" by simp
    let ?m1 = "maker\<lparr>Order.qty_remaining := Order.qty_remaining maker - r\<rparr>"
    let ?p1 = "pool_set ?p a ?m1"
    from kept hd have b1: "order_pool b1 = ?p1" "order_map b1 = order_map b" "l1 = la"
      by auto
    from kept(2) have la: "la = l\<lparr>total_qty := total_qty l - std_min r (Order.qty_remaining maker)\<rparr>"
      by (rule reduce_qty_SomeD)
    have f1: "pool_at ?p1 = ?f(a \<mapsto> ?m1)"
      by (rule pool_at_pool_set_live [OF mk(1)])
    have pf: "pool_frame ?p ?p1"
      using mk(1) by (rule pool_frame_pool_set) (simp add: maker)
    have ok1: "level_ok (pool_at ?p1) s' la xs"
      unfolding la level_ok_total_qty
      by (rule level_ok_frame [OF ok]) (use mk [folded maker] in \<open>auto simp: f1 links_def\<close>)
    have "core ?p1 (order_map b) (L(s' := pre @ la # post)) (C(s' := cpre @ xs # cpost))"
    proof (rule core_update [OF c L C len ok1 dx(1), of "{}"])
      show "free_ok ?p1" by (rule pool_frame_free_ok [OF pf fr])
      show "\<forall>oid i. order_map b oid = Some i \<longleftrightarrow>
              (\<exists>ord. pool_at ?p1 i = Some ord \<and> Order.order_id ord = oid)"
        using omap pool_frame_ids [OF pf] by simp
      show "i \<in> chain_set C - set xs \<union> set xs" if "pool_at ?p1 i \<noteq> None" for i
        using that pool_frame_live [OF pf, of i] lv [of i] by auto
      show "pool_at ?p1 j = ?f j" if "j \<notin> set xs" for j
        using that xs by (auto simp: f1)
    qed simp_all
    with b1 la mk hd show ?thesis by auto
  next
    case (unlinked maker la p2 l2 maker2 p3)
    with mk hd have maker: "maker = mk" by simp
    let ?m1 = "maker\<lparr>Order.qty_remaining :=
                 Order.qty_remaining maker - std_min r (Order.qty_remaining maker)\<rparr>"
    let ?p1 = "pool_set ?p a ?m1"
    from unlinked hd have b1: "order_pool b1 = p3"
      "order_map b1 = (order_map b)(Order.order_id maker2 := None)" "l1 = l2"
      by auto
    from unlinked(2) have la: "la = l\<lparr>total_qty := total_qty l - std_min r (Order.qty_remaining maker)\<rparr>"
      by (rule reduce_qty_SomeD)
    have f1: "pool_at ?p1 = ?f(a \<mapsto> ?m1)"
      by (rule pool_at_pool_set_live [OF mk(1)])
    have pf1: "pool_frame ?p ?p1"
      using mk(1) by (rule pool_frame_pool_set) (simp add: maker)
    have ok1: "level_ok (pool_at ?p1) s' la xs"
      unfolding la level_ok_total_qty
      by (rule level_ok_frame [OF ok]) (use mk [folded maker] in \<open>auto simp: f1 links_def\<close>)
    from unlinked(4) hd have rm: "remove ?p1 la a = Some (p2, l2)" by simp
    from level_ok_remove [OF rm ok1 _ dx(1)] xs have
      ok2: "level_ok (pool_at p2) s' l2 rest" and pf2: "pool_frame ?p1 p2"
      and fr2: "\<And>j. j \<notin> set xs \<Longrightarrow> pool_at p2 j = pool_at ?p1 j"
      and pr2: "PriceLevel.price l2 = PriceLevel.price la"
      by auto
    from unlinked(6) hd have de: "deallocate p2 a = Some p3" by simp
    note dd = deallocate_SomeD [OF de]
    from dd have f3: "pool_at p3 = (pool_at p2)(a := None)" by simp
    from dx(1) xs have a_rest: "a \<notin> set rest" "distinct rest" by auto
    have ok3: "level_ok (pool_at p3) s' l2 rest"
      by (rule level_ok_same [OF ok2]) (use a_rest in \<open>auto simp: f3\<close>)
    note pf = pool_frame_trans [OF pf1 pf2]
    from unlinked(5) hd have m2: "pool_at p2 a = Some maker2" by simp
    from pool_frame_static [OF pf, of a] m2 mk have id2: "Order.order_id maker2 = Order.order_id mk"
      by (auto simp: static_def)
    have "core p3 ((order_map b)(Order.order_id maker2 := None)) (L(s' := pre @ l2 # post))
            (C(s' := cpre @ rest # cpost))"
    proof (rule core_update [OF c L C len ok3 a_rest(2), of "{}"])
      show "free_ok p3"
        by (rule free_ok_deallocate [OF de]) (rule pool_frame_free_ok [OF pf fr])
      show "i \<in> chain_set C - set xs \<union> set rest" if "pool_at p3 i \<noteq> None" for i
      proof -
        from that have "i \<noteq> a" "pool_at p2 i \<noteq> None" by (auto simp: f3 split: if_splits)
        with pool_frame_live [OF pf, of i] lv [of i] xs show ?thesis by auto
      qed
      show "pool_at p3 j = ?f j" if "j \<notin> set xs" for j
        using that xs fr2 [OF that] by (auto simp: f3 f1)
      show "\<forall>oid i. ((order_map b)(Order.order_id maker2 := None)) oid = Some i \<longleftrightarrow>
              (\<exists>ord. pool_at p3 i = Some ord \<and> Order.order_id ord = oid)"
      proof (intro allI)
        fix oid i
        show "((order_map b)(Order.order_id maker2 := None)) oid = Some i \<longleftrightarrow>
              (\<exists>ord. pool_at p3 i = Some ord \<and> Order.order_id ord = oid)"
        proof (cases "i = a")
          case True
          have "order_map b oid = Some a \<Longrightarrow> oid = Order.order_id mk"
            using omap mk by auto
          with True id2 show ?thesis by (auto simp: f3)
        next
          case False
          have "(\<exists>ord. ?f i = Some ord \<and> Order.order_id ord = Order.order_id mk) \<Longrightarrow> i = a"
            using omap mk by (metis option.inject)
          with False omap pool_frame_ids [OF pf, of i] id2 show ?thesis
            by (auto simp: f3)
        qed
      qed
      show "set rest \<subseteq> set xs \<union> {}" using xs by auto
    qed simp
    with b1 pr2 la mk hd show ?thesis by auto
  qed
qed

lemma sorted_side_price_cong:
  assumes "PriceLevel.price l1 = PriceLevel.price l"
  shows "sorted_side s (pre @ l1 # post) = sorted_side s (pre @ l # post)"
  using assms by (auto simp: sorted_side_def sorted_wrt_append level_before_def)

lemma sorted_side_drop:
  "sorted_side s (pre @ l # post) \<Longrightarrow> sorted_side s (pre @ post)"
  by (auto simp: sorted_side_def sorted_wrt_append)

lemma core_drop_empty:
  assumes c: "core p om L C" and L: "L s' = pre @ l # post" and e: "order_count l = 0"
  shows "\<exists>C'. core p om (L(s' := pre @ post)) C'"
proof -
  from c have all2: "\<And>s. list_all2 (level_ok (pool_at p) s) (L s) (C s)"
    by (auto simp: core_def)
  from all2 [of s', unfolded L] obtain cpre xs cpost where
    C: "C s' = cpre @ xs # cpost" and ok: "level_ok (pool_at p) s' l xs"
    and pre: "list_all2 (level_ok (pool_at p) s') pre cpre"
    and post: "list_all2 (level_ok (pool_at p) s') post cpost"
    by (rule list_all2_split)
  from ok e have xs: "xs = []" by (simp add: level_ok_def)
  let ?C = "C(s' := cpre @ cpost)"
  have cc: "concat (?C s) = concat (C s)" for s
    using C xs by simp
  have "list_all2 (level_ok (pool_at p) s) ((L(s' := pre @ post)) s) (?C s)" for s
    using all2 [of s] pre post by (auto simp: list_all2_appendI)
  with c cc have "core p om (L(s' := pre @ post)) ?C"
    unfolding core_def by simp
  then show ?thesis by blast
qed

lemma match_level_core:
  assumes c: "core (order_pool b) (order_map b) L C"
    and L: "L s' = pre @ l # post"
    and K: "K (b, r, n, env)"
    and ml: "match_level dbg cb oid tid s (b, l, r, n, env) = Some (b1, l1, r1, n1, env1)"
    and step: "\<And>b l r n env b1 l1 r1 n1 env1 maker.
        K (b, r, n, env) \<Longrightarrow>
        match_step dbg cb oid tid s (b, l, r, n, env) = Some (b1, l1, r1, n1, env1) \<Longrightarrow>
        pool_at (order_pool b) (head_idx l) = Some maker \<Longrightarrow> Order.side maker = s' \<Longrightarrow>
        0 <s r \<Longrightarrow> K (b1, r1, n1, env1)"
  shows "(\<exists>C'. core (order_pool b1) (order_map b1) (L(s' := pre @ l1 # post)) C')
         \<and> PriceLevel.price l1 = PriceLevel.price l \<and> K (b1, r1, n1, env1)"
proof -
  let ?I = "\<lambda>(b, k, r, n, env).
      (\<exists>C. core (order_pool b) (order_map b) (L(s' := pre @ k # post)) C)
      \<and> PriceLevel.price k = PriceLevel.price l \<and> K (b, r, n, env)"
  have "?I (b1, l1, r1, n1, env1)"
  proof (rule match_level_rule [OF ml])
    from L have "L(s' := pre @ l # post) = L" by auto
    with c K show "?I (b, l, r, n, env)" by auto
  next
    fix b k r n env st1
    assume I: "?I (b, k, r, n, env)" and r: "0 <s r" and ne: "\<not> empty k"
      and ms: "match_step dbg cb oid tid s (b, k, r, n, env) = Some st1"
    obtain b2 k2 r2 n2 env2 where st1: "st1 = (b2, k2, r2, n2, env2)" by (cases st1) auto
    from I obtain C0 where c0: "core (order_pool b) (order_map b) (L(s' := pre @ k # post)) C0"
      by auto
    have L0: "(L(s' := pre @ k # post)) s' = pre @ k # post" by simp
    from ne have ne': "order_count k \<noteq> 0" by (simp add: empty_def)
    note msc = match_step_core [OF c0 L0 ne' ms [unfolded st1]]
    from msc have "\<exists>C1. core (order_pool b2) (order_map b2)
        ((L(s' := pre @ k # post))(s' := pre @ k2 # post)) C1"
      by (rule conjunct1)
    then have c2: "\<exists>C1. core (order_pool b2) (order_map b2) (L(s' := pre @ k2 # post)) C1"
      by simp
    from msc have pr: "PriceLevel.price k2 = PriceLevel.price k"
      by (rule conjunct2 [THEN conjunct1])
    from msc obtain maker where mk: "pool_at (order_pool b) (head_idx k) = Some maker"
      and sd: "Order.side maker = s'"
      by blast
    from I have K0: "K (b, r, n, env)" by simp
    have "K (b2, r2, n2, env2)"
      by (rule step [OF K0 ms [unfolded st1] mk sd r])
    with c2 pr I show "?I st1" unfolding st1 by simp
  qed
  then show ?thesis by auto
qed

lemma match_levels_core:
  assumes "core (order_pool b) (order_map b) L C"
    and "L s' = pre @ ls"
    and "sorted_side s' (pre @ ls)"
    and "\<forall>l\<in>set (pre @ ls). order_count l \<noteq> 0"
    and "K (b, r, n, env)"
    and "match_levels dbg cb oid tid s p mk ls (b, r, n, env) = Some (ls', b', r', n', env')"
    and step: "\<And>b l r n env b1 l1 r1 n1 env1 maker.
        K (b, r, n, env) \<Longrightarrow>
        match_step dbg cb oid tid s (b, l, r, n, env) = Some (b1, l1, r1, n1, env1) \<Longrightarrow>
        pool_at (order_pool b) (head_idx l) = Some maker \<Longrightarrow> Order.side maker = s' \<Longrightarrow>
        0 <s r \<Longrightarrow> K (b1, r1, n1, env1)"
  shows "(\<exists>C'. core (order_pool b') (order_map b') (L(s' := pre @ ls')) C')
         \<and> sorted_side s' (pre @ ls')
         \<and> (\<forall>l\<in>set (pre @ ls'). order_count l \<noteq> 0)
         \<and> K (b', r', n', env')"
  using assms(1-6)
proof (induction ls arbitrary: pre b r n env ls' L C)
  case Nil
  then have "L(s' := pre @ ls') = L" by auto
  with Nil show ?case by auto
next
  case (Cons l ls)
  show ?case
  proof (cases "\<not> 0 <s r \<or> (\<not> mk \<and> s = Buy \<and> p <s PriceLevel.price l)
                \<or> (\<not> mk \<and> s = Sell \<and> PriceLevel.price l <s p)")
    case True
    with Cons.prems(6) have eq: "ls' = l # ls" "b' = b" "r' = r" "n' = n" "env' = env"
      by (auto split: if_splits)
    with Cons.prems have "L(s' := pre @ ls') = L" by auto
    with Cons.prems eq show ?thesis by auto
  next
    case False
    with Cons.prems(6) obtain b1 l1 r1 n1 env1 where
      ml: "match_level dbg cb oid tid s (b, l, r, n, env) = Some (b1, l1, r1, n1, env1)"
      by (auto split: option.splits if_splits)
    have "(\<exists>C'. core (order_pool b1) (order_map b1) (L(s' := pre @ l1 # ls)) C')
         \<and> PriceLevel.price l1 = PriceLevel.price l \<and> K (b1, r1, n1, env1)"
      by (rule match_level_core [where K = K and s' = s', OF Cons.prems(1,2,5) ml])
         (rule step; assumption)
    then obtain C1 where
      c1: "core (order_pool b1) (order_map b1) (L(s' := pre @ l1 # ls)) C1"
      and pr: "PriceLevel.price l1 = PriceLevel.price l"
      and K1: "K (b1, r1, n1, env1)"
      by blast
    from sorted_side_price_cong [OF pr] Cons.prems(3)
    have so1: "sorted_side s' (pre @ l1 # ls)" by simp
    show ?thesis
    proof (cases "empty l1")
      case True
      with False Cons.prems(6) ml have
        rec: "match_levels dbg cb oid tid s p mk ls (b1, r1, n1, env1) = Some (ls', b', r', n', env')"
        by (auto split: if_splits)
      from True have "order_count l1 = 0" by (simp add: empty_def)
      from core_drop_empty [OF c1 _ this, of s' pre ls] obtain C2 where
        c2: "core (order_pool b1) (order_map b1) (L(s' := pre @ ls)) C2"
        by auto
      have "(\<exists>C'. core (order_pool b') (order_map b') ((L(s' := pre @ ls))(s' := pre @ ls')) C')
         \<and> sorted_side s' (pre @ ls')
         \<and> (\<forall>l\<in>set (pre @ ls'). order_count l \<noteq> 0)
         \<and> K (b', r', n', env')"
        by (rule Cons.IH [OF c2 _ _ _ K1 rec])
           (use sorted_side_drop [OF so1] Cons.prems(4) in auto)
      then show ?thesis unfolding fun_upd_upd .
    next
      case ne: False
      with False Cons.prems(6) ml obtain ls1 where
        rec: "match_levels dbg cb oid tid s p mk ls (b1, r1, n1, env1) = Some (ls1, b', r', n', env')"
        and ls': "ls' = l1 # ls1"
        by (auto split: if_splits)
      from ne have ne1: "order_count l1 \<noteq> 0" by (simp add: empty_def)
      have "(\<exists>C'. core (order_pool b') (order_map b')
                    ((L(s' := pre @ l1 # ls))(s' := (pre @ [l1]) @ ls1)) C')
         \<and> sorted_side s' ((pre @ [l1]) @ ls1)
         \<and> (\<forall>l\<in>set ((pre @ [l1]) @ ls1). order_count l \<noteq> 0)
         \<and> K (b', r', n', env')"
        by (rule Cons.IH [OF c1 _ _ _ K1 rec])
           (use so1 ne1 Cons.prems(4) in auto)
      then show ?thesis unfolding fun_upd_upd ls' append_assoc append_Cons append_Nil .
    qed
  qed
qed

lemma match_step_levels:
  "match_step dbg cb oid tid s (b, l, r, n, env) = Some (b1, l1, r1, n1, env1)
   \<Longrightarrow> bids b1 = bids b \<and> asks b1 = asks b"
  by (auto simp: match_step_def Let_def split: option.splits if_splits)

lemma levels_of_simps [simp]:
  "levels_of b Buy = bids b" "levels_of b Sell = asks b"
  by (simp_all add: levels_of_def)

lemma levels_of_upd:
  "bids b' = (if s' = Buy then ls else bids b) \<Longrightarrow> asks b' = (if s' = Sell then ls else asks b)
   \<Longrightarrow> levels_of b' = (levels_of b)(s' := ls)"
proof (rule ext)
  fix t
  assume "bids b' = (if s' = Buy then ls else bids b)"
    and "asks b' = (if s' = Sell then ls else asks b)"
  then show "levels_of b' t = ((levels_of b)(s' := ls)) t"
    by (cases t; cases s') (simp_all add: levels_of_def)
qed

lemma match_order_inv:
  assumes inv: "book_inv b"
    and K: "K (order_pool b, q, 0, env)"
    and mo: "match_order dbg cb b oid tid s p q mk env = Some (b', r', n', env')"
    and step: "\<And>b l r n env b1 l1 r1 n1 env1 maker.
        K (order_pool b, r, n, env) \<Longrightarrow>
        match_step dbg cb oid tid s (b, l, r, n, env) = Some (b1, l1, r1, n1, env1) \<Longrightarrow>
        pool_at (order_pool b) (head_idx l) = Some maker \<Longrightarrow>
        Order.side maker = opposite s \<Longrightarrow> 0 <s r \<Longrightarrow>
        K (order_pool b1, r1, n1, env1)"
  shows "book_inv b' \<and> K (order_pool b', r', n', env')"
proof -
  let ?s' = "opposite s"
  let ?ls = "if s = Buy then asks b else bids b"
  from mo obtain ls' b1 where
    ml: "match_levels dbg cb oid tid s p mk ?ls (b, q, 0, env) = Some (ls', b1, r', n', env')"
    and b': "b' = (if s = Buy then b1\<lparr>asks := ls'\<rparr> else b1\<lparr>bids := ls'\<rparr>)"
    by (auto simp: match_order_def split: option.splits)
  from inv obtain C where c: "core (order_pool b) (order_map b) (levels_of b) C"
    and so: "\<And>s. sorted_side s (levels_of b s)"
    and ne: "\<And>s. \<forall>l\<in>set (levels_of b s). order_count l \<noteq> 0"
    by (auto simp: book_inv_def)
  have ls: "levels_of b ?s' = [] @ ?ls" by (cases s) auto
  let ?K = "\<lambda>(b0, r, n, env). K (order_pool b0, r, n, env) \<and> bids b0 = bids b \<and> asks b0 = asks b"
  have "(\<exists>C'. core (order_pool b1) (order_map b1) ((levels_of b)(?s' := [] @ ls')) C')
         \<and> sorted_side ?s' ([] @ ls')
         \<and> (\<forall>l\<in>set ([] @ ls'). order_count l \<noteq> 0)
         \<and> ?K (b1, r', n', env')"
  proof (rule match_levels_core [where K = ?K, OF c ls _ _ _ ml])
    show "sorted_side ?s' ([] @ ?ls)" using so [of ?s'] ls by simp
    show "\<forall>l\<in>set ([] @ ?ls). order_count l \<noteq> 0" using ne [of ?s'] ls by simp
    show "?K (b, q, 0, env)" using K by simp
  next
    fix b0 l r n env b2 l1 r1 n1 env1 maker
    assume "?K (b0, r, n, env)"
      and ms: "match_step dbg cb oid tid s (b0, l, r, n, env) = Some (b2, l1, r1, n1, env1)"
      and "pool_at (order_pool b0) (head_idx l) = Some maker"
      and "Order.side maker = opposite s" and "0 <s r"
    then show "?K (b2, r1, n1, env1)"
      using step [of b0 r n env l b2 l1 r1 n1 env1 maker] match_step_levels [OF ms]
      by simp
  qed
  then obtain C' where
    c': "core (order_pool b1) (order_map b1) ((levels_of b)(?s' := ls')) C'"
    and so': "sorted_side ?s' ls'"
    and ne': "\<forall>l\<in>set ls'. order_count l \<noteq> 0"
    and K': "K (order_pool b1, r', n', env')"
    and same: "bids b1 = bids b" "asks b1 = asks b"
    by auto
  have lv: "levels_of b' = (levels_of b)(?s' := ls')"
    by (rule levels_of_upd) (cases s; simp add: b' same)+
  have "book_inv b'"
    unfolding book_inv_def lv
  proof (intro conjI allI)
    from c' show "\<exists>C. core (order_pool b') (order_map b') ((levels_of b)(?s' := ls')) C"
      by (auto simp: b')
    fix t
    show "sorted_side t (((levels_of b)(?s' := ls')) t)"
      using so [of t] so' by simp
    show "\<forall>l\<in>set (((levels_of b)(?s' := ls')) t). order_count l \<noteq> 0"
      using ne [of t] ne' by simp
  qed
  with K' show ?thesis by (simp add: b')
qed

lemma match_order_book_inv:
  assumes "book_inv b" and "match_order dbg cb b oid tid s p q mk env = Some (b', r', n', env')"
  shows "book_inv b'"
  using match_order_inv [where K = "\<lambda>_. True", OF assms(1) _ assms(2)] by simp

lemma add_market_book_inv:
  assumes "book_inv b" and "add_market dbg cb b oid tid s q env = Some (b', env', resp)"
  shows "book_inv b'"
  using assms
  by (auto simp: add_market_def split: option.splits dest: match_order_book_inv)

section \<open>Lookup in an ordered level vector\<close>

lemma level_before_trans:
  assumes "\<not> level_before k p a" and "level_before k (PriceLevel.price y) a"
  shows "\<not> level_before k p y \<and> PriceLevel.price y \<noteq> p"
  using assms by (auto simp: level_before_def word_sless_alt split: if_splits)

lemma sorted_side_dropWhile:
  "sorted_side s ls \<Longrightarrow>
   list_all (\<lambda>l. \<not> level_before (s = Buy) p l) (dropWhile (level_before (s = Buy) p) ls)"
proof (induction ls)
  case Nil
  then show ?case by simp
next
  case (Cons a ls)
  from Cons.prems have so: "sorted_side s ls"
    and ab: "\<And>y. y \<in> set ls \<Longrightarrow> level_before (s = Buy) (PriceLevel.price y) a"
    by (simp_all add: sorted_side_def)
  show ?case
  proof (cases "level_before (s = Buy) p a")
    case True
    with Cons.IH [OF so] show ?thesis by simp
  next
    case False
    have "\<not> level_before (s = Buy) p y" if "y \<in> set ls" for y
      using level_before_trans [OF False ab [OF that]] by simp
    with False show ?thesis by (simp add: list_all_iff)
  qed
qed

lemma lower_bound_sorted:
  assumes "sorted_side s ls"
  shows "lower_bound ls p (s = Buy) = Some (length (takeWhile (level_before (s = Buy) p) ls))"
  using sorted_side_dropWhile [OF assms, of p]
  by (simp add: lower_bound_def Let_def dropWhile_eq_drop)

lemma takeWhile_sorted_at:
  assumes "sorted_side s (pre @ l # post)"
  shows "takeWhile (level_before (s = Buy) (PriceLevel.price l)) (pre @ l # post) = pre"
proof -
  have "\<And>x. x \<in> set pre \<Longrightarrow> level_before (s = Buy) (PriceLevel.price l) x"
    using assms by (auto simp: sorted_side_def sorted_wrt_append)
  moreover have "\<not> level_before (s = Buy) (PriceLevel.price l) l"
    by (simp add: level_before_def)
  ultimately show ?thesis by (simp add: takeWhile_append2)
qed

lemma find_level_sorted:
  assumes "sorted_side s (pre @ l # post)"
  shows "find_level (pre @ l # post) (PriceLevel.price l) (s = Buy) = Some (length pre)"
  using lower_bound_sorted [OF assms, of "PriceLevel.price l"] takeWhile_sorted_at [OF assms]
  by (simp add: find_level_def)

lemma find_or_create_level_found:
  assumes "sorted_side s (pre @ l # post)"
  shows "find_or_create_level (pre @ l # post) (PriceLevel.price l) (s = Buy)
         = Some (length pre, pre @ l # post)"
  using lower_bound_sorted [OF assms, of "PriceLevel.price l"] takeWhile_sorted_at [OF assms]
  by (simp add: find_or_create_level_def)

lemma sorted_side_price_inj:
  assumes "sorted_side s ls" and "a \<in> set ls" and "b \<in> set ls"
    and "PriceLevel.price a = PriceLevel.price b"
  shows "a = b"
proof (rule ccontr)
  assume ne: "a \<noteq> b"
  from assms(2) obtain i where i: "i < length ls" "ls ! i = a" by (auto simp: in_set_conv_nth)
  from assms(3) obtain j where j: "j < length ls" "ls ! j = b" by (auto simp: in_set_conv_nth)
  from ne i j have "i \<noteq> j" by auto
  then consider "i < j" | "j < i" by linarith
  then show False
  proof cases
    case 1
    with assms(1) i j have "level_before (s = Buy) (PriceLevel.price b) a"
      by (auto simp: sorted_side_def sorted_wrt_iff_nth_less)
    with assms(4) show False by (auto simp: level_before_def split: if_splits)
  next
    case 2
    with assms(1) i j have "level_before (s = Buy) (PriceLevel.price a) b"
      by (auto simp: sorted_side_def sorted_wrt_iff_nth_less)
    with assms(4) show False by (auto simp: level_before_def split: if_splits)
  qed
qed

text \<open>The outcome of \<open>find_or_create_level\<close> on a sorted side.\<close>

lemma find_or_create_level_sorted:
  assumes so: "sorted_side s ls"
  obtains pre l post where
    "find_or_create_level ls p (s = Buy) = Some (length pre, pre @ l # post)"
    "PriceLevel.price l = p" "sorted_side s (pre @ l # post)"
    "ls = pre @ l # post \<or> (ls = pre @ post \<and> l = new_PriceLevel p)"
proof -
  let ?P = "level_before (s = Buy) p"
  let ?R = "\<lambda>a b. level_before (s = Buy) (PriceLevel.price b) a"
  define pre where "pre = takeWhile ?P ls"
  define post where "post = dropWhile ?P ls"
  have split: "ls = pre @ post" by (simp add: pre_def post_def)
  have lb: "lower_bound ls p (s = Buy) = Some (length pre)"
    unfolding pre_def by (rule lower_bound_sorted [OF so])
  have tk: "take (length pre) ls = pre" by (simp add: split)
  have dr: "drop (length pre) ls = post" by (simp add: split)
  have fail: "\<And>y. y \<in> set post \<Longrightarrow> \<not> ?P y"
    using sorted_side_dropWhile [OF so, of p] by (simp add: list_all_iff post_def)
  have old: "\<And>x. x \<in> set pre \<Longrightarrow> ?P x"
    by (auto simp: pre_def dest: set_takeWhileD)
  from so have sw: "sorted_wrt ?R (pre @ post)"
    by (simp add: sorted_side_def split)
  show ?thesis
  proof (cases "length pre \<noteq> length ls \<and> PriceLevel.price (ls ! length pre) = p")
    case True
    then obtain h t where post: "post = h # t"
      by (cases post) (auto simp: split)
    from True have h: "PriceLevel.price h = p" by (simp add: split post)
    show ?thesis
    proof (rule that [of pre h t])
      show "find_or_create_level ls p (s = Buy) = Some (length pre, pre @ h # t)"
        using lb True by (simp add: find_or_create_level_def) (simp add: split post)
      show "PriceLevel.price h = p" by (rule h)
      show "sorted_side s (pre @ h # t)" using so by (simp add: split post)
      show "ls = pre @ h # t \<or> (ls = pre @ t \<and> h = new_PriceLevel p)"
        by (simp add: split post)
    qed
  next
    case False
    have nep: "PriceLevel.price y \<noteq> p" if y: "y \<in> set post" for y
    proof (cases post)
      case Nil
      with y show ?thesis by simp
    next
      case (Cons h t)
      with False have h: "PriceLevel.price h \<noteq> p" by (simp add: split)
      from sw Cons have ht: "\<And>z. z \<in> set t \<Longrightarrow> ?R h z" by (simp add: sorted_wrt_append)
      from fail [of h] Cons have nh: "\<not> ?P h" by simp
      show ?thesis
      proof (cases "y = h")
        case True
        with h show ?thesis by simp
      next
        case False
        with y Cons have "y \<in> set t" by simp
        from level_before_trans [OF nh ht [OF this]] show ?thesis by simp
      qed
    qed
    have new: "?R (new_PriceLevel p) y" if "y \<in> set post" for y
    proof -
      from nep [OF that] have "sint (PriceLevel.price y) \<noteq> sint p"
        by (auto dest: signed_word_eqI)
      with fail [OF that] show ?thesis
        by (auto simp: level_before_def new_PriceLevel_def word_sless_alt split: if_splits)
    qed
    have old': "\<And>x. x \<in> set pre \<Longrightarrow> ?R x (new_PriceLevel p)"
      using old by (simp add: new_PriceLevel_def)
    show ?thesis
    proof (rule that [of pre "new_PriceLevel p" post])
      show "find_or_create_level ls p (s = Buy)
            = Some (length pre, pre @ new_PriceLevel p # post)"
        using lb False tk dr by (auto simp: find_or_create_level_def)
      show "PriceLevel.price (new_PriceLevel p) = p" by (simp add: new_PriceLevel_def)
      show "sorted_side s (pre @ new_PriceLevel p # post)"
        using sw new old' by (auto simp: sorted_side_def sorted_wrt_append)
      show "ls = pre @ new_PriceLevel p # post
            \<or> (ls = pre @ post \<and> new_PriceLevel p = new_PriceLevel p)"
        by (simp add: split)
    qed
  qed
qed

lemma core_insert_empty:
  assumes c: "core p om L C" and L: "L s' = pre @ post"
  shows "\<exists>C'. core p om (L(s' := pre @ new_PriceLevel pr # post)) C'
              \<and> (\<exists>cpre cpost. C' s' = cpre @ [] # cpost \<and> length cpre = length pre)"
proof -
  from c have all2: "\<And>s. list_all2 (level_ok (pool_at p) s) (L s) (C s)"
    by (auto simp: core_def)
  from all2 [of s', unfolded L] obtain cpre cpost where
    C: "C s' = cpre @ cpost"
    and pre: "list_all2 (level_ok (pool_at p) s') pre cpre"
    and post: "list_all2 (level_ok (pool_at p) s') post cpost"
    by (auto simp: list_all2_append1)
  let ?C = "C(s' := cpre @ [] # cpost)"
  have cc: "concat (?C s) = concat (C s)" for s
    using C by simp
  have new: "level_ok (pool_at p) s' (new_PriceLevel pr) []"
    by (simp add: level_ok_def new_PriceLevel_def)
  have "list_all2 (level_ok (pool_at p) s) ((L(s' := pre @ new_PriceLevel pr # post)) s) (?C s)"
    for s
    using all2 [of s] pre post new by (auto simp: list_all2_appendI)
  with c cc have "core p om (L(s' := pre @ new_PriceLevel pr # post)) ?C"
    unfolding core_def by simp
  moreover have "?C s' = cpre @ [] # cpost \<and> length cpre = length pre"
    using pre by (auto dest: list_all2_lengthD)
  ultimately show ?thesis by blast
qed

section \<open>Resting an order\<close>

lemma core_chain_live:
  assumes c: "core p om L C" and i: "i \<in> chain_set C"
  shows "pool_at p i \<noteq> None"
proof -
  from i obtain s xs where xs: "xs \<in> set (C s)" "i \<in> set xs"
    by (auto simp: chain_set_def)
  from c have "list_all2 (level_ok (pool_at p) s) (L s) (C s)" by (simp add: core_def)
  with xs(1) obtain l where "level_ok (pool_at p) s l xs"
    by (auto simp: in_set_conv_nth list_all2_conv_all_nth)
  from level_ok_live [OF this xs(2)] show ?thesis .
qed

lemma core_live_chain:
  "core p om L C \<Longrightarrow> pool_at p i \<noteq> None \<Longrightarrow> i \<in> chain_set C"
  by (auto simp: core_def chain_set_def)

lemma core_map:
  "core p om L C \<Longrightarrow>
   om oid = Some i \<longleftrightarrow> (\<exists>ord. pool_at p i = Some ord \<and> Order.order_id ord = oid)"
  by (simp add: core_def)

lemma core_free_ok: "core p om L C \<Longrightarrow> free_ok p"
  by (simp add: core_def)

lemma level_ok_count: "level_ok f s l xs \<Longrightarrow> xs \<noteq> [] \<Longrightarrow> order_count l \<noteq> 0"
  by (auto simp: level_ok_def)

text \<open>Linking a freshly allocated order at the back of one level.\<close>

lemma core_rest_order:
  assumes c: "core p om L C"
    and L: "L s' = pre @ l # post"
    and none: "om oid = None"
    and al: "allocate p ord = (p1, k)" and k: "k \<noteq> INVALID_POOL_INDEX"
    and ord: "Order.order_id ord = oid" "Order.side ord = s'"
             "Order.price ord = PriceLevel.price l"
    and pb: "push_back p1 l k = Some (p2, l1)"
  shows "(\<exists>C'. core p2 (om(oid \<mapsto> k)) (L(s' := pre @ l1 # post)) C')
         \<and> PriceLevel.price l1 = PriceLevel.price l \<and> order_count l1 \<noteq> 0"
proof -
  from c have all2: "list_all2 (level_ok (pool_at p) s') (L s') (C s')"
    by (simp add: core_def)
  from all2 [unfolded L] obtain cpre xs cpost where
    C: "C s' = cpre @ xs # cpost" and ok: "level_ok (pool_at p) s' l xs"
    and len: "length cpre = length pre"
    by (rule list_all2_split)
  note d = core_chain_distinct [OF c C]
  from free_ok_allocate [OF al k core_free_ok [OF c]] have
    free: "pool_at p k = None" and p1: "pool_at p1 = (pool_at p)(k \<mapsto> ord)"
    and fr1: "free_ok p1"
    by simp_all
  from free core_chain_live [OF c, of k] have kc: "k \<notin> chain_set C" by auto
  with d(2) have kx: "k \<notin> set xs" by auto
  have ok1: "level_ok (pool_at p1) s' l xs"
    by (rule level_ok_same [OF ok]) (use kx p1 in auto)
  have k1: "pool_at p1 k = Some ord" by (simp add: p1)
  from level_ok_push_back [OF pb ok1 kx d(1) k1 ord(2,3)] have
    ok2: "level_ok (pool_at p2) s' l1 (xs @ [k])" and fr: "pool_frame p1 p2"
    and same: "\<And>j. j \<notin> set xs \<Longrightarrow> j \<noteq> k \<Longrightarrow> pool_at p2 j = pool_at p1 j"
    and pr: "PriceLevel.price l1 = PriceLevel.price l"
    by simp_all
  have "core p2 (om(oid \<mapsto> k)) (L(s' := pre @ l1 # post)) (C(s' := cpre @ (xs @ [k]) # cpost))"
  proof (rule core_update [OF c L C len ok2, where N = "{k}"])
    show "distinct (xs @ [k])" using d(1) kx by simp
    show "set (xs @ [k]) \<subseteq> set xs \<union> {k}" by simp
    show "{k} \<inter> chain_set C = {}" using kc by simp
    show "pool_at p2 j = pool_at p j" if "j \<notin> set xs" "j \<notin> {k}" for j
      using same [of j] that p1 by simp
    show "i \<in> (chain_set C - set xs) \<union> set (xs @ [k])" if "pool_at p2 i \<noteq> None" for i
    proof -
      from that pool_frame_live [OF fr, of i] have "pool_at p1 i \<noteq> None" by simp
      then have "i = k \<or> pool_at p i \<noteq> None" by (simp add: p1 split: if_splits)
      with core_live_chain [OF c, of i] show ?thesis by auto
    qed
    show "\<forall>oid' i. (om(oid \<mapsto> k)) oid' = Some i \<longleftrightarrow>
            (\<exists>ord. pool_at p2 i = Some ord \<and> Order.order_id ord = oid')"
    proof (intro allI)
      fix oid' i
      have "(\<exists>ord. pool_at p2 i = Some ord \<and> Order.order_id ord = oid')
            \<longleftrightarrow> (\<exists>ord. pool_at p1 i = Some ord \<and> Order.order_id ord = oid')"
        by (rule pool_frame_ids [OF fr])
      also have "\<dots> \<longleftrightarrow> (om(oid \<mapsto> k)) oid' = Some i"
        using core_map [OF c, of oid' i] core_map [OF c, of oid i] none free ord(1)
        by (auto simp: p1)
      finally show "(om(oid \<mapsto> k)) oid' = Some i \<longleftrightarrow>
            (\<exists>ord. pool_at p2 i = Some ord \<and> Order.order_id ord = oid')" by simp
    qed
    show "free_ok p2" by (rule pool_frame_free_ok [OF fr fr1])
  qed
  moreover from level_ok_count [OF ok2] have "order_count l1 \<noteq> 0" by simp
  ultimately show ?thesis using pr by blast
qed

lemma allocate_failed: "allocate p x = (p1, INVALID_POOL_INDEX) \<Longrightarrow> p1 = p"
  by (auto simp: allocate_def Let_def split: if_splits)

lemma book_invI:
  assumes "core (order_pool b) (order_map b) (levels_of b) C"
    and "\<And>s. sorted_side s (levels_of b s)"
    and "\<And>s l. l \<in> set (levels_of b s) \<Longrightarrow> order_count l \<noteq> 0"
  shows "book_inv b"
  using assms unfolding book_inv_def by blast

lemma book_invE:
  assumes "book_inv b"
  obtains C where "core (order_pool b) (order_map b) (levels_of b) C"
    and "\<And>s. sorted_side s (levels_of b s)"
    and "\<And>s l. l \<in> set (levels_of b s) \<Longrightarrow> order_count l \<noteq> 0"
  using assms unfolding book_inv_def by blast

text \<open>The second half of \<open>add_limit_internal\<close>: the remainder is put to rest.\<close>

lemma rest_order_book_inv:
  assumes inv: "book_inv b1"
    and none: "order_map b1 oid = None"
    and al: "allocate (order_pool b1) (new_Order oid tid s p r) = (pool1, k)"
    and k: "k \<noteq> INVALID_POOL_INDEX"
    and foc: "find_or_create_level (levels_of b1 s) p (s = Buy) = Some (i, levels1)"
    and pb: "push_back pool1 (levels1 ! i) k = Some (pool2, l1)"
    and b': "order_pool b' = pool2" "order_map b' = (order_map b1)(oid \<mapsto> k)"
      "levels_of b' = (levels_of b1)(s := levels1[i := l1])"
  shows "book_inv b'"
proof -
  from inv obtain C where c: "core (order_pool b1) (order_map b1) (levels_of b1) C"
    and so: "\<And>s. sorted_side s (levels_of b1 s)"
    and ne: "\<And>s l. l \<in> set (levels_of b1 s) \<Longrightarrow> order_count l \<noteq> 0"
    by (rule book_invE) blast
  obtain pre l post where
    foc': "find_or_create_level (levels_of b1 s) p (s = Buy) = Some (length pre, pre @ l # post)"
    and pr: "PriceLevel.price l = p" and so1: "sorted_side s (pre @ l # post)"
    and cases: "levels_of b1 s = pre @ l # post
                \<or> (levels_of b1 s = pre @ post \<and> l = new_PriceLevel p)"
    by (rule find_or_create_level_sorted [OF so])
  from foc foc' have i: "i = length pre" and levels1: "levels1 = pre @ l # post" by simp_all
  have li: "levels1 ! i = l" and upd: "levels1[i := l1] = pre @ l1 # post"
    by (simp_all add: i levels1)
  let ?L = "(levels_of b1)(s := pre @ l # post)"
  have "\<exists>C1. core (order_pool b1) (order_map b1) ?L C1"
  proof -
    from cases show ?thesis
    proof
      assume "levels_of b1 s = pre @ l # post"
      then have "?L = levels_of b1" by auto
      with c show ?thesis by auto
    next
      assume "levels_of b1 s = pre @ post \<and> l = new_PriceLevel p"
      with core_insert_empty [OF c, of s pre post p] show ?thesis by auto
    qed
  qed
  then obtain C1 where c1: "core (order_pool b1) (order_map b1) ?L C1" ..
  have Ls: "?L s = pre @ l # post" by simp
  have "(\<exists>C'. core pool2 ((order_map b1)(oid \<mapsto> k)) (?L(s := pre @ l1 # post)) C')
         \<and> PriceLevel.price l1 = PriceLevel.price l \<and> order_count l1 \<noteq> 0"
    by (rule core_rest_order [OF c1 Ls none al k _ _ _ pb [unfolded li]])
       (simp_all add: new_Order_def pr)
  then obtain C' where
    c': "core pool2 ((order_map b1)(oid \<mapsto> k)) ((levels_of b1)(s := pre @ l1 # post)) C'"
    and pr1: "PriceLevel.price l1 = PriceLevel.price l" and ne1: "order_count l1 \<noteq> 0"
    by auto
  have lv: "levels_of b' = (levels_of b1)(s := pre @ l1 # post)"
    by (simp add: b'(3) upd)
  have sub: "set pre \<union> set post \<subseteq> set (levels_of b1 s)"
    using cases by auto
  show ?thesis
  proof (rule book_invI)
    show "core (order_pool b') (order_map b') (levels_of b') C'"
      using c' by (simp add: b'(1,2) lv)
    show "sorted_side t (levels_of b' t)" for t
      using so [of t] so1 sorted_side_price_cong [OF pr1, of s pre post]
      by (simp add: lv)
    show "order_count x \<noteq> 0" if "x \<in> set (levels_of b' t)" for t x
      using that ne [of x t] ne1 sub by (auto simp: lv split: if_splits)
  qed
qed

lemma add_limit_internal_book_inv:
  assumes inv: "book_inv b"
    and al: "add_limit_internal dbg cb b oid tid s p q env = Some (b', env', resp)"
  shows "book_inv b'"
proof (cases "order_map b oid \<noteq> None")
  case True
  with al inv show ?thesis by (simp add: add_limit_internal_def)
next
  case False
  with al obtain b1 r n where
    mo: "match_order dbg cb b oid tid s p q False env = Some (b1, r, n, env')"
    and rest: "(if r <=s 0 then b' = b1
         else (case allocate (order_pool b1) (new_Order oid tid s p r) of
                 (pool1, k) \<Rightarrow>
                   if k = INVALID_POOL_INDEX then b' = b1\<lparr>order_pool := pool1\<rparr>
                   else (case find_or_create_level (levels_of b1 s) p (s = Buy) of
                           None \<Rightarrow> False
                         | Some (i, levels1) \<Rightarrow>
                             (case push_back pool1 (levels1 ! i) k of
                                None \<Rightarrow> False
                              | Some (pool2, l1) \<Rightarrow>
                                  b' = (if s = Buy
                                        then b1\<lparr>order_pool := pool2,
                                                order_map := (order_map b1)(oid \<mapsto> k),
                                                bids := levels1[i := l1]\<rparr>
                                        else b1\<lparr>order_pool := pool2,
                                                order_map := (order_map b1)(oid \<mapsto> k),
                                                asks := levels1[i := l1]\<rparr>)))))"
    by (auto simp: add_limit_internal_def Let_def levels_of_def
             split: option.splits if_splits prod.splits)
  have inv1: "book_inv b1" by (rule match_order_book_inv [OF inv mo])
  from match_order_order_map [OF mo, of oid] False have none: "order_map b1 oid = None" by auto
  show ?thesis
  proof (cases "r <=s 0")
    case True
    with rest inv1 show ?thesis by simp
  next
    case pos: False
    obtain pool1 k where al1: "allocate (order_pool b1) (new_Order oid tid s p r) = (pool1, k)"
      by (cases "allocate (order_pool b1) (new_Order oid tid s p r)")
    show ?thesis
    proof (cases "k = INVALID_POOL_INDEX")
      case True
      with al1 have "pool1 = order_pool b1" by (auto dest: allocate_failed)
      with rest pos al1 True inv1 show ?thesis by simp
    next
      case k: False
      with rest pos al1 obtain i levels1 pool2 l1 where
        foc: "find_or_create_level (levels_of b1 s) p (s = Buy) = Some (i, levels1)"
        and pb: "push_back pool1 (levels1 ! i) k = Some (pool2, l1)"
        and b': "b' = (if s = Buy
                       then b1\<lparr>order_pool := pool2,
                               order_map := (order_map b1)(oid \<mapsto> k),
                               bids := levels1[i := l1]\<rparr>
                       else b1\<lparr>order_pool := pool2,
                               order_map := (order_map b1)(oid \<mapsto> k),
                               asks := levels1[i := l1]\<rparr>)"
        by (auto split: option.splits)
      show ?thesis
      proof (rule rest_order_book_inv [OF inv1 none al1 k foc pb])
        show "order_pool b' = pool2" by (simp add: b')
        show "order_map b' = (order_map b1)(oid \<mapsto> k)" by (simp add: b')
        show "levels_of b' = (levels_of b1)(s := levels1[i := l1])"
          by (rule levels_of_upd) (cases s; simp add: b')+
      qed
    qed
  qed
qed

section \<open>Removing an order\<close>

lemma core_locate:
  assumes c: "core p om L C" and k: "pool_at p k = Some ord"
  obtains pre l post cpre xs cpost where
    "L (Order.side ord) = pre @ l # post" "PriceLevel.price l = Order.price ord"
    "C (Order.side ord) = cpre @ xs # cpost" "length cpre = length pre" "k \<in> set xs"
proof -
  from core_live_chain [OF c, of k] k obtain s xs where xs: "xs \<in> set (C s)" "k \<in> set xs"
    by (auto simp: chain_set_def)
  from xs(1) obtain cpre cpost where C: "C s = cpre @ xs # cpost"
    by (auto dest: split_list)
  from c have "list_all2 (level_ok (pool_at p) s) (L s) (C s)" by (simp add: core_def)
  with C obtain pre l post where L: "L s = pre @ l # post" and len: "length cpre = length pre"
    and ok: "level_ok (pool_at p) s l xs"
    by (auto simp: list_all2_append2 list_all2_Cons2)
  from ok xs(2) k have "Order.side ord = s" "Order.price ord = PriceLevel.price l"
    by (auto simp: level_ok_def)
  with L C len xs(2) show ?thesis by (auto intro: that)
qed

text \<open>Unlinking one order from its level and returning its slot.\<close>

lemma core_unlink:
  assumes c: "core p om L C"
    and L: "L s' = pre @ l # post" and C: "C s' = cpre @ xs # cpost"
    and len: "length cpre = length pre"
    and kx: "k \<in> set xs" and k: "pool_at p k = Some ord"
    and rm: "remove p l k = Some (p1, l1)"
    and de: "deallocate p1 k = Some p2"
  shows "(\<exists>C'. core p2 (om(Order.order_id ord := None)) (L(s' := pre @ l1 # post)) C')
         \<and> PriceLevel.price l1 = PriceLevel.price l"
proof -
  let ?f = "pool_at p"
  from c have all2: "list_all2 (level_ok ?f s') (L s') (C s')"
    and omap: "\<forall>oid i. om oid = Some i \<longleftrightarrow> (\<exists>ord. ?f i = Some ord \<and> Order.order_id ord = oid)"
    and lv: "\<And>i. ?f i \<noteq> None \<Longrightarrow> i \<in> chain_set C"
    and fr: "free_ok p"
    by (auto simp: core_def chain_set_def)
  from all2 [unfolded L C] len have ok: "level_ok ?f s' l xs"
    by (auto simp: list_all2_append list_all2_Cons1)
  note dx = core_chain_distinct [OF c C]
  from level_ok_remove [OF rm ok kx dx(1)] have
    ok1: "level_ok (pool_at p1) s' l1 (remove1 k xs)" and pf: "pool_frame p p1"
    and fr1: "\<And>j. j \<notin> set xs \<Longrightarrow> pool_at p1 j = ?f j"
    and pr1: "PriceLevel.price l1 = PriceLevel.price l"
    by auto
  note dd = deallocate_SomeD [OF de]
  from dd have f2: "pool_at p2 = (pool_at p1)(k := None)" by simp
  from dx(1) have kr: "k \<notin> set (remove1 k xs)" "distinct (remove1 k xs)" by auto
  have ok2: "level_ok (pool_at p2) s' l1 (remove1 k xs)"
    by (rule level_ok_same [OF ok1]) (use kr in \<open>auto simp: f2\<close>)
  have "core p2 (om(Order.order_id ord := None)) (L(s' := pre @ l1 # post))
          (C(s' := cpre @ remove1 k xs # cpost))"
  proof (rule core_update [OF c L C len ok2 kr(2), of "{}"])
    show "free_ok p2"
      by (rule free_ok_deallocate [OF de]) (rule pool_frame_free_ok [OF pf fr])
    show "i \<in> chain_set C - set xs \<union> set (remove1 k xs)" if "pool_at p2 i \<noteq> None" for i
    proof -
      from that have "i \<noteq> k" "pool_at p1 i \<noteq> None" by (auto simp: f2 split: if_splits)
      with pool_frame_live [OF pf, of i] lv [of i] dx(1) show ?thesis by auto
    qed
    show "pool_at p2 j = ?f j" if "j \<notin> set xs" for j
      using that kx fr1 [OF that] by (auto simp: f2)
    show "\<forall>oid i. (om(Order.order_id ord := None)) oid = Some i \<longleftrightarrow>
            (\<exists>ord. pool_at p2 i = Some ord \<and> Order.order_id ord = oid)"
    proof (intro allI)
      fix oid i
      show "(om(Order.order_id ord := None)) oid = Some i \<longleftrightarrow>
            (\<exists>ord. pool_at p2 i = Some ord \<and> Order.order_id ord = oid)"
      proof (cases "i = k")
        case True
        have "om oid = Some k \<Longrightarrow> oid = Order.order_id ord"
          using omap k by auto
        with True show ?thesis by (auto simp: f2)
      next
        case False
        have "(\<exists>o'. ?f i = Some o' \<and> Order.order_id o' = Order.order_id ord) \<Longrightarrow> i = k"
          using omap k by (metis option.inject)
        with False omap pool_frame_ids [OF pf, of i] show ?thesis
          by (auto simp: f2)
      qed
    qed
    show "set (remove1 k xs) \<subseteq> set xs \<union> {}" using set_remove1_subset [of k xs] by simp
  qed simp
  with pr1 show ?thesis by blast
qed

lemma remove_order_book_inv:
  assumes inv: "book_inv b"
    and k: "pool_at (order_pool b) k = Some ord"
    and ro: "remove_order_internal b k = Some b1"
  shows "book_inv (b1\<lparr>order_map := (order_map b1)(Order.order_id ord := None)\<rparr>)"
proof -
  let ?s = "Order.side ord"
  let ?b' = "b1\<lparr>order_map := (order_map b1)(Order.order_id ord := None)\<rparr>"
  from inv obtain C where c: "core (order_pool b) (order_map b) (levels_of b) C"
    and so: "\<And>s. sorted_side s (levels_of b s)"
    and ne: "\<And>s l. l \<in> set (levels_of b s) \<Longrightarrow> order_count l \<noteq> 0"
    by (rule book_invE) blast
  from c k obtain pre l post cpre xs cpost where
    L: "levels_of b ?s = pre @ l # post" and pr: "PriceLevel.price l = Order.price ord"
    and C: "C ?s = cpre @ xs # cpost" and len: "length cpre = length pre" and kx: "k \<in> set xs"
    by (rule core_locate)
  have lv: "(if ?s = Buy then bids b else asks b) = pre @ l # post"
    using L by (simp add: levels_of_def)
  from so [of ?s] L have so1: "sorted_side ?s (pre @ l # post)" by simp
  have fl: "find_level (pre @ l # post) (Order.price ord) (?s = Buy) = Some (length pre)"
    using find_level_sorted [OF so1] pr by simp
  from ro k lv fl obtain p1 l1 p2 where
    rm: "remove (order_pool b) l k = Some (p1, l1)"
    and de: "deallocate p1 k = Some p2"
    and b1: "b1 = (if ?s = Buy
                   then b\<lparr>order_pool := p2,
                          bids := remove_level_if_empty (pre @ l1 # post) (length pre)\<rparr>
                   else b\<lparr>order_pool := p2,
                          asks := remove_level_if_empty (pre @ l1 # post) (length pre)\<rparr>)"
    by (auto simp: remove_order_internal_def Let_def split: option.splits)
  let ?ls = "remove_level_if_empty (pre @ l1 # post) (length pre)"
  have ls: "?ls = (if empty l1 then pre @ post else pre @ l1 # post)"
    by (simp add: remove_level_if_empty_def)
  from core_unlink [OF c L C len kx k rm de] obtain C1 where
    c1: "core p2 ((order_map b)(Order.order_id ord := None))
           ((levels_of b)(?s := pre @ l1 # post)) C1"
    and pr1: "PriceLevel.price l1 = PriceLevel.price l"
    by auto
  have "\<exists>C'. core p2 ((order_map b)(Order.order_id ord := None)) ((levels_of b)(?s := ?ls)) C'"
  proof (cases "empty l1")
    case True
    then have "order_count l1 = 0" by (simp add: empty_def)
    from core_drop_empty [OF c1 _ this, of ?s pre post] True show ?thesis
      by (simp add: ls)
  next
    case False
    with c1 show ?thesis by (auto simp: ls)
  qed
  then obtain C' where
    c': "core p2 ((order_map b)(Order.order_id ord := None)) ((levels_of b)(?s := ?ls)) C'" ..
  have lvb: "levels_of ?b' = (levels_of b)(?s := ?ls)"
    by (rule levels_of_upd) (cases "?s"; simp add: b1)+
  have so': "sorted_side ?s ?ls"
    using so1 sorted_side_price_cong [OF pr1, of ?s pre post] sorted_side_drop [of ?s pre l1 post]
    by (simp add: ls)
  have ne': "order_count x \<noteq> 0" if "x \<in> set ?ls" for x
    using that ne [of x ?s] L by (auto simp: ls empty_def split: if_splits)
  show ?thesis
  proof (rule book_invI)
    have "order_pool ?b' = p2" "order_map ?b' = (order_map b)(Order.order_id ord := None)"
      by (simp_all add: b1)
    with c' show "core (order_pool ?b') (order_map ?b') (levels_of ?b') C'"
      by (simp only: lvb)
    show "sorted_side t (levels_of ?b' t)" for t
      using so [of t] so' by (simp add: lvb)
    show "order_count x \<noteq> 0" if "x \<in> set (levels_of ?b' t)" for t x
      using that ne [of x t] ne' [of x] unfolding lvb by (auto split: if_splits)
  qed
qed

lemma cancel_book_inv:
  assumes inv: "book_inv b" and ca: "cancel b oid = Some (b', resp)"
  shows "book_inv b'"
proof (cases "order_map b oid")
  case None
  with ca inv show ?thesis by (simp add: cancel_def)
next
  case (Some k)
  with ca obtain ord b1 where k: "pool_at (order_pool b) k = Some ord"
    and ro: "remove_order_internal b k = Some b1"
    and b': "b' = b1\<lparr>order_map := (order_map b1)(oid := None)\<rparr>"
    by (auto simp: cancel_def split: option.splits)
  from inv obtain C where c: "core (order_pool b) (order_map b) (levels_of b) C"
    by (rule book_invE)
  from core_map [OF c, of oid k] Some k have "Order.order_id ord = oid" by simp
  with remove_order_book_inv [OF inv k ro] b' show ?thesis by simp
qed

section \<open>Reducing an order in place\<close>

text \<open>Writing a quantity into a linked order and a total into its level.\<close>

lemma core_set_qty:
  assumes c: "core p om L C"
    and L: "L s' = pre @ l # post" and C: "C s' = cpre @ xs # cpost"
    and len: "length cpre = length pre"
    and kx: "k \<in> set xs" and k: "pool_at p k = Some ord"
  shows "\<exists>C'. core (pool_set p k (ord\<lparr>Order.qty_remaining := q\<rparr>)) om
           (L(s' := pre @ l\<lparr>total_qty := t\<rparr> # post)) C'"
proof -
  let ?f = "pool_at p"
  let ?o1 = "ord\<lparr>Order.qty_remaining := q\<rparr>"
  let ?p1 = "pool_set p k ?o1"
  from c have all2: "list_all2 (level_ok ?f s') (L s') (C s')"
    and omap: "\<forall>oid i. om oid = Some i \<longleftrightarrow> (\<exists>ord. ?f i = Some ord \<and> Order.order_id ord = oid)"
    and lv: "\<And>i. ?f i \<noteq> None \<Longrightarrow> i \<in> chain_set C"
    and fr: "free_ok p"
    by (auto simp: core_def chain_set_def)
  from all2 [unfolded L C] len have ok: "level_ok ?f s' l xs"
    by (auto simp: list_all2_append list_all2_Cons1)
  note dx = core_chain_distinct [OF c C]
  have f1: "pool_at ?p1 = ?f(k \<mapsto> ?o1)"
    by (rule pool_at_pool_set_live [OF k])
  have pf: "pool_frame p ?p1"
    using k by (rule pool_frame_pool_set) simp
  have ok1: "level_ok (pool_at ?p1) s' (l\<lparr>total_qty := t\<rparr>) xs"
    unfolding level_ok_total_qty
    by (rule level_ok_frame [OF ok]) (use k in \<open>auto simp: f1 links_def\<close>)
  have "core ?p1 om (L(s' := pre @ l\<lparr>total_qty := t\<rparr> # post)) (C(s' := cpre @ xs # cpost))"
  proof (rule core_update [OF c L C len ok1 dx(1), of "{}"])
    show "free_ok ?p1" by (rule pool_frame_free_ok [OF pf fr])
    show "\<forall>oid i. om oid = Some i \<longleftrightarrow>
            (\<exists>ord. pool_at ?p1 i = Some ord \<and> Order.order_id ord = oid)"
      using omap pool_frame_ids [OF pf] by simp
    show "i \<in> chain_set C - set xs \<union> set xs" if "pool_at ?p1 i \<noteq> None" for i
      using that pool_frame_live [OF pf, of i] lv [of i] by auto
    show "pool_at ?p1 j = ?f j" if "j \<notin> set xs" for j
      using that kx by (auto simp: f1)
  qed simp_all
  then show ?thesis by blast
qed

lemma modify_book_inv:
  assumes inv: "book_inv b" and mo: "modify dbg cb b oid new_qty new_price env = Some (b', env', resp)"
  shows "book_inv b'"
proof (cases "order_map b oid")
  case None
  with mo inv show ?thesis by (simp add: modify_def)
next
  case (Some k)
  from inv obtain C where c: "core (order_pool b) (order_map b) (levels_of b) C"
    and so: "\<And>s. sorted_side s (levels_of b s)"
    and ne: "\<And>s l. l \<in> set (levels_of b s) \<Longrightarrow> order_count l \<noteq> 0"
    by (rule book_invE) blast
  from mo Some obtain ord where k: "pool_at (order_pool b) k = Some ord"
    by (auto simp: modify_def split: option.splits)
  from core_map [OF c, of oid k] Some k have id: "Order.order_id ord = oid" by simp
  let ?s = "Order.side ord"
  have readd: "book_inv b'"
    if ro: "remove_order_internal b k = Some b1"
      and al: "add_limit_internal dbg cb (b1\<lparr>order_map := (order_map b1)(oid := None)\<rparr>)
                 oid tid s p q env = Some (b', env', resp)"
    for b1 tid s p q
  proof -
    from remove_order_book_inv [OF inv k ro] id
    have "book_inv (b1\<lparr>order_map := (order_map b1)(oid := None)\<rparr>)" by simp
    from add_limit_internal_book_inv [OF this al] show ?thesis .
  qed
  show ?thesis
  proof (cases "(new_price \<noteq> 0 \<and> new_price \<noteq> Order.price ord)
                \<or> \<not> new_qty <s Order.qty_remaining ord")
    case True
    with mo Some k obtain b1 p where
      "remove_order_internal b k = Some b1"
      "add_limit_internal dbg cb (b1\<lparr>order_map := (order_map b1)(oid := None)\<rparr>)
         oid (Order.trader_id ord) ?s p new_qty env = Some (b', env', resp)"
      by (auto simp: modify_def split: option.splits if_splits)
    then show ?thesis by (rule readd)
  next
    case False
    from c k obtain pre l post cpre xs cpost where
      L: "levels_of b ?s = pre @ l # post" and pr: "PriceLevel.price l = Order.price ord"
      and C: "C ?s = cpre @ xs # cpost" and len: "length cpre = length pre" and kx: "k \<in> set xs"
      by (rule core_locate)
    have lv: "(if ?s = Buy then bids b else asks b) = pre @ l # post"
      using L by (simp add: levels_of_def)
    from so [of ?s] L have so1: "sorted_side ?s (pre @ l # post)" by simp
    have fl: "find_level (pre @ l # post) (Order.price ord) (?s = Buy) = Some (length pre)"
      using find_level_sorted [OF so1] pr by simp
    let ?p1 = "pool_set (order_pool b) k (ord\<lparr>Order.qty_remaining := new_qty\<rparr>)"
    from mo Some k False lv fl obtain l1 where
      rq: "reduce_qty dbg l (Order.qty_remaining ord - new_qty) = Some l1"
      and b': "b' = (if ?s = Buy then b\<lparr>order_pool := ?p1, bids := pre @ l1 # post\<rparr>
                     else b\<lparr>order_pool := ?p1, asks := pre @ l1 # post\<rparr>)"
      by (auto simp: modify_def Let_def split: option.splits if_splits)
    from rq have l1: "l1 = l\<lparr>total_qty := total_qty l - (Order.qty_remaining ord - new_qty)\<rparr>"
      by (rule reduce_qty_SomeD)
    from core_set_qty [OF c L C len kx k, of new_qty] l1 obtain C' where
      c': "core ?p1 (order_map b) ((levels_of b)(?s := pre @ l1 # post)) C'"
      by auto
    have lvb: "levels_of b' = (levels_of b)(?s := pre @ l1 # post)"
      by (rule levels_of_upd) (cases "?s"; simp add: b')+
    have pr1: "PriceLevel.price l1 = PriceLevel.price l" by (simp add: l1)
    have c1: "order_count l1 = order_count l" by (simp add: l1)
    show ?thesis
    proof (rule book_invI)
      have "order_pool b' = ?p1" "order_map b' = order_map b"
        by (simp_all add: b')
      with c' show "core (order_pool b') (order_map b') (levels_of b') C'"
        by (simp only: lvb)
      show "sorted_side t (levels_of b' t)" for t
        using so [of t] so1 sorted_side_price_cong [OF pr1, of ?s pre post]
        by (simp add: lvb)
      show "order_count x \<noteq> 0" if "x \<in> set (levels_of b' t)" for t x
        using that ne [of x t] ne [of l ?s] L c1 unfolding lvb by (auto split: if_splits)
    qed
  qed
qed

lemma add_limit_book_inv:
  "book_inv b \<Longrightarrow> add_limit dbg cb b oid tid s p q env = Some (b', env', resp) \<Longrightarrow> book_inv b'"
  unfolding add_limit_def by (rule add_limit_internal_book_inv)

section \<open>Trades and counters of a match\<close>

lemma match_step_accounting:
  assumes "match_step dbg cb oid tid s (b, l, r, n, env) = Some (b1, l1, r1, n1, env1)"
  shows "\<exists>t. env1 = emit_trade cb t env \<and> Trade.qty t = r - r1 \<and> taker_side t = s
            \<and> taker_order_id t = oid \<and> taker_trader_id t = tid
            \<and> total_trades b1 = total_trades b + 1
            \<and> total_volume b1 = total_volume b + (r - r1) \<and> n1 = Suc n"
  using assms by (cases rule: match_step_cases) (auto simp: new_Trade_def)

lemma match_order_counters:
  assumes "match_order dbg cb b oid tid s p q mk env = Some (b', r', n', env')"
  shows "total_trades b' = total_trades b + of_nat n'
         \<and> total_volume b' = total_volume b + (q - r')"
proof -
  have "(\<lambda>(pl, om, tt, tv, r, n, e).
           tt = total_trades b + of_nat n \<and> tv = total_volume b + (q - r))
          (order_pool b', order_map b', total_trades b', total_volume b', r', n', env')"
    by (rule match_order_rule [OF assms]) (auto dest!: match_step_accounting)
  then show ?thesis by simp
qed


lemma match_order_trades:
  assumes "match_order dbg rec_trades b oid tid s p q mk ts = Some (b', r', n', ts')"
  shows "\<exists>new. ts' = ts @ new \<and> length new = n' \<and> sum_list (map Trade.qty new) = q - r'
               \<and> (\<forall>t\<in>set new. taker_side t = s \<and> taker_order_id t = oid)"
proof -
  have "(\<lambda>(pl, om, tt, tv, r, n, e).
           \<exists>new. e = ts @ new \<and> length new = n \<and> sum_list (map Trade.qty new) = q - r
                 \<and> (\<forall>t\<in>set new. taker_side t = s \<and> taker_order_id t = oid))
          (order_pool b', order_map b', total_trades b', total_volume b', r', n', ts')"
  proof (rule match_order_rule [OF assms], goal_cases)
    case 1
    then show ?case by simp
  next
    case (2 b l r n env b1 l1 r1 n1 env1)
    then obtain new where new: "env = ts @ new" "length new = n"
      "sum_list (map Trade.qty new) = q - r"
      "\<forall>t\<in>set new. taker_side t = s \<and> taker_order_id t = oid"
      by auto
    from match_step_accounting [OF 2(2)] obtain t where
      t: "env1 = env @ [t]" "Trade.qty t = r - r1" "taker_side t = s" "taker_order_id t = oid"
         "n1 = Suc n"
      by (auto simp: emit_trade_def rec_trades_def)
    have "env1 = ts @ (new @ [t]) \<and> length (new @ [t]) = n1
          \<and> sum_list (map Trade.qty (new @ [t])) = q - r1
          \<and> (\<forall>t\<in>set (new @ [t]). taker_side t = s \<and> taker_order_id t = oid)"
      using new t by auto
    then show ?case by blast
  qed
  then show ?thesis by simp
qed


section \<open>Sequences of operations keep the book well-formed\<close>

lemma apply_op_book_inv:
  assumes "book_inv b" and "apply_op dbg cb (b, env) call = Some (b', env')"
  shows "book_inv b'"
proof (cases call)
  case (OpAddLimit oid tid s p q)
  with assms show ?thesis
    by (auto simp: apply_op_def dest: add_limit_book_inv)
next
  case (OpAddMarket oid tid s q)
  with assms show ?thesis
    by (auto simp: apply_op_def dest: add_market_book_inv)
next
  case (OpCancel oid)
  with assms show ?thesis
    by (auto simp: apply_op_def dest: cancel_book_inv)
next
  case (OpModify oid new_qty new_price)
  with assms show ?thesis
    by (auto simp: apply_op_def dest: modify_book_inv)
qed

lemma apply_ops_book_inv:
  "book_inv b \<Longrightarrow> apply_ops dbg cb (b, env) calls = Some (b', env') \<Longrightarrow> book_inv b'"
proof (induction calls arbitrary: b env)
  case Nil
  then show ?case by simp
next
  case (Cons call calls)
  from Cons.prems(2) obtain b1 env1 where
    1: "apply_op dbg cb (b, env) call = Some (b1, env1)"
    and 2: "apply_ops dbg cb (b1, env1) calls = Some (b', env')"
    by (auto split: option.splits)
  from apply_op_book_inv [OF Cons.prems(1) 1] have "book_inv b1" .
  from Cons.IH [OF this 2] show ?case .
qed

lemma reachable_book_inv:
  "apply_ops dbg cb (new_OrderBook cap, env) calls = Some (b, env') \<Longrightarrow> book_inv b"
  by (rule apply_ops_book_inv [OF book_inv_new])

section \<open>The maker of a trade\<close>

lemma pool_set_static:
  assumes "pool_at p i = Some ord" and "static v = static ord"
  shows "map_option static (pool_at (pool_set p i v) j) = map_option static (pool_at p j)"
  using assms by (auto simp: pool_at_pool_set dest: pool_at_Some_valid)

lemma remove_static:
  assumes "remove p l x = Some (p', l')"
  shows "map_option static (pool_at p' j) = map_option static (pool_at p j)"
proof -
  from assms obtain ord p1 l1 ord1 p2 l2 ord2 where
    o: "pool_at p x = Some ord"
    and s1: "(if prev_idx ord \<noteq> INVALID_POOL_INDEX
              then map_option
                     (\<lambda>pr. (pool_set p (prev_idx ord) (pr\<lparr>next_idx := next_idx ord\<rparr>), l))
                     (pool_at p (prev_idx ord))
              else Some (p, l\<lparr>head_idx := next_idx ord\<rparr>)) = Some (p1, l1)"
    and o1: "pool_at p1 x = Some ord1"
    and s2: "(if next_idx ord1 \<noteq> INVALID_POOL_INDEX
              then map_option
                     (\<lambda>nx. (pool_set p1 (next_idx ord1) (nx\<lparr>prev_idx := prev_idx ord1\<rparr>), l1))
                     (pool_at p1 (next_idx ord1))
              else Some (p1, l1\<lparr>tail_idx := prev_idx ord1\<rparr>)) = Some (p2, l2)"
    and o2: "pool_at p2 x = Some ord2"
    and p': "p' = pool_set p2 x (ord2\<lparr>prev_idx := INVALID_POOL_INDEX,
                                        next_idx := INVALID_POOL_INDEX\<rparr>)"
    by (auto simp: remove_def split: option.splits)
  from s1 have 1: "map_option static (pool_at p1 j) = map_option static (pool_at p j)"
    by (auto split: if_splits intro!: pool_set_static)
  from s2 have 2: "map_option static (pool_at p2 j) = map_option static (pool_at p1 j)"
    by (auto split: if_splits intro!: pool_set_static)
  have 3: "map_option static (pool_at p' j) = map_option static (pool_at p2 j)"
    unfolding p' by (rule pool_set_static [OF o2]) (simp add: static_def)
  from 1 2 3 show ?thesis by simp
qed

lemma match_step_static:
  assumes "match_step dbg cb oid tid s (b, l, r, n, env) = Some (b1, l1, r1, n1, env1)"
    and "pool_at (order_pool b1) j = Some o1"
  shows "\<exists>ord. pool_at (order_pool b) j = Some ord \<and> static ord = static o1"
  using assms(1)
proof (cases rule: match_step_cases)
  case (kept maker la)
  have "map_option static (pool_at (order_pool b1) j) = map_option static (pool_at (order_pool b) j)"
    using kept(5) by (auto intro!: pool_set_static [OF kept(1)])
  with assms(2) show ?thesis by (cases "pool_at (order_pool b) j") auto
next
  case (unlinked maker la p2 l2 maker2 p3)
  let ?p1 = "pool_set (order_pool b) (head_idx l)
               (maker\<lparr>Order.qty_remaining :=
                  Order.qty_remaining maker - std_min r (Order.qty_remaining maker)\<rparr>)"
  have 1: "map_option static (pool_at ?p1 j) = map_option static (pool_at (order_pool b) j)"
    by (rule pool_set_static [OF unlinked(1)]) simp
  have 2: "map_option static (pool_at p2 j) = map_option static (pool_at ?p1 j)"
    by (rule remove_static [OF unlinked(4)])
  from deallocate_SomeD [OF unlinked(6)] have 3: "pool_at p3 = (pool_at p2)(head_idx l := None)"
    by simp
  from unlinked(7) have "order_pool b1 = p3" by simp
  with assms(2) 3 have "pool_at p2 j = Some o1" by (auto split: if_splits)
  with 1 2 show ?thesis by (cases "pool_at (order_pool b) j") auto
qed

lemma match_step_trade:
  assumes "match_step dbg cb oid tid s (b, l, r, n, env) = Some (b1, l1, r1, n1, env1)"
    and "pool_at (order_pool b) (head_idx l) = Some maker"
  shows "env1 = emit_trade cb
           (new_Trade (Order.order_id maker) oid (Order.trader_id maker) tid
              (Order.price maker) (std_min r (Order.qty_remaining maker)) s) env
         \<and> n1 = Suc n"
  using assms by (cases rule: match_step_cases) auto

section \<open>The first fill\<close>


lemma std_min_same [simp]: "std_min q q = q"
  by (simp add: std_min_def)







section \<open>Calls return in a build under NDEBUG\<close>

lemma pool_set_live:
  "pool_at p i \<noteq> None \<Longrightarrow> (pool_at (pool_set p i v) j \<noteq> None) = (pool_at p j \<noteq> None)"
  by (auto simp: pool_at_pool_set dest: pool_at_Some_valid)

lemma remove_total:
  assumes x: "pool_at p x = Some ord"
    and pv: "prev_idx ord \<noteq> INVALID_POOL_INDEX \<Longrightarrow> pool_at p (prev_idx ord) \<noteq> None"
    and nx: "next_idx ord \<noteq> INVALID_POOL_INDEX \<Longrightarrow> pool_at p (next_idx ord) \<noteq> None"
  shows "\<exists>p' l'. remove p l x = Some (p', l')"
proof -
  obtain p1 l1 where s1: "(if prev_idx ord \<noteq> INVALID_POOL_INDEX
              then map_option
                     (\<lambda>pr. (pool_set p (prev_idx ord) (pr\<lparr>next_idx := next_idx ord\<rparr>), l))
                     (pool_at p (prev_idx ord))
              else Some (p, l\<lparr>head_idx := next_idx ord\<rparr>)) = Some (p1, l1)"
    and live1: "\<And>j. (pool_at p1 j \<noteq> None) = (pool_at p j \<noteq> None)"
    and x1: "\<exists>o1. pool_at p1 x = Some o1 \<and> next_idx o1 = next_idx ord
                    \<and> prev_idx o1 = prev_idx ord"
  proof (cases "prev_idx ord \<noteq> INVALID_POOL_INDEX")
    case True
    with pv obtain pr where pr: "pool_at p (prev_idx ord) = Some pr" by auto
    let ?p1 = "pool_set p (prev_idx ord) (pr\<lparr>next_idx := next_idx ord\<rparr>)"
    show ?thesis
    proof (rule that [of ?p1 l])
      show "(if prev_idx ord \<noteq> INVALID_POOL_INDEX
              then map_option
                     (\<lambda>pr. (pool_set p (prev_idx ord) (pr\<lparr>next_idx := next_idx ord\<rparr>), l))
                     (pool_at p (prev_idx ord))
              else Some (p, l\<lparr>head_idx := next_idx ord\<rparr>)) = Some (?p1, l)"
        using True pr by simp
      show "(pool_at ?p1 j \<noteq> None) = (pool_at p j \<noteq> None)" for j
        by (rule pool_set_live) (simp add: pr)
      show "\<exists>o1. pool_at ?p1 x = Some o1 \<and> next_idx o1 = next_idx ord
                    \<and> prev_idx o1 = prev_idx ord"
        using x pr by (auto simp: pool_at_pool_set)
    qed
  next
    case False
    show ?thesis
      by (rule that [of p "l\<lparr>head_idx := next_idx ord\<rparr>"]) (use False x in auto)
  qed
  from x1 obtain o1 where o1: "pool_at p1 x = Some o1" "next_idx o1 = next_idx ord" by auto
  obtain p2 l2 where s2: "(if next_idx o1 \<noteq> INVALID_POOL_INDEX
              then map_option
                     (\<lambda>nx. (pool_set p1 (next_idx o1) (nx\<lparr>prev_idx := prev_idx o1\<rparr>), l1))
                     (pool_at p1 (next_idx o1))
              else Some (p1, l1\<lparr>tail_idx := prev_idx o1\<rparr>)) = Some (p2, l2)"
    and live2: "\<And>j. (pool_at p2 j \<noteq> None) = (pool_at p1 j \<noteq> None)"
  proof (cases "next_idx o1 \<noteq> INVALID_POOL_INDEX")
    case True
    with nx o1(2) live1 obtain nxo where n: "pool_at p1 (next_idx o1) = Some nxo" by auto
    let ?p2 = "pool_set p1 (next_idx o1) (nxo\<lparr>prev_idx := prev_idx o1\<rparr>)"
    show ?thesis
    proof (rule that [of ?p2 l1])
      show "(if next_idx o1 \<noteq> INVALID_POOL_INDEX
              then map_option
                     (\<lambda>nx. (pool_set p1 (next_idx o1) (nx\<lparr>prev_idx := prev_idx o1\<rparr>), l1))
                     (pool_at p1 (next_idx o1))
              else Some (p1, l1\<lparr>tail_idx := prev_idx o1\<rparr>)) = Some (?p2, l1)"
        using True n by simp
      show "(pool_at ?p2 j \<noteq> None) = (pool_at p1 j \<noteq> None)" for j
        by (rule pool_set_live) (simp add: n)
    qed
  next
    case False
    show ?thesis
      by (rule that [of p1 "l1\<lparr>tail_idx := prev_idx o1\<rparr>"]) (use False in auto)
  qed
  from live2 [of x] o1 obtain o2 where o2: "pool_at p2 x = Some o2" by auto
  from x s1 o1 s2 o2 show ?thesis by (simp add: remove_def)
qed

lemma push_back_total:
  assumes x: "pool_at p x = Some ord"
    and t: "tail_idx l \<noteq> INVALID_POOL_INDEX \<Longrightarrow> pool_at p (tail_idx l) \<noteq> None"
  shows "\<exists>p' l'. push_back p l x = Some (p', l')"
proof -
  let ?p1 = "pool_set p x (ord\<lparr>prev_idx := tail_idx l, next_idx := INVALID_POOL_INDEX\<rparr>)"
  have live1: "(pool_at ?p1 j \<noteq> None) = (pool_at p j \<noteq> None)" for j
    by (rule pool_set_live) (simp add: x)
  obtain p2 l1 where s: "(if tail_idx l \<noteq> INVALID_POOL_INDEX
                    then map_option
                           (\<lambda>t. (pool_set ?p1 (tail_idx l) (t\<lparr>next_idx := x\<rparr>), l))
                           (pool_at ?p1 (tail_idx l))
                    else Some (?p1, l\<lparr>head_idx := x\<rparr>)) = Some (p2, l1)"
    and live2: "\<And>j. (pool_at p2 j \<noteq> None) = (pool_at ?p1 j \<noteq> None)"
  proof (cases "tail_idx l \<noteq> INVALID_POOL_INDEX")
    case True
    with t live1 obtain tl where tl: "pool_at ?p1 (tail_idx l) = Some tl" by auto
    let ?p2 = "pool_set ?p1 (tail_idx l) (tl\<lparr>next_idx := x\<rparr>)"
    show ?thesis
    proof (rule that [of ?p2 l])
      show "(if tail_idx l \<noteq> INVALID_POOL_INDEX
                    then map_option
                           (\<lambda>t. (pool_set ?p1 (tail_idx l) (t\<lparr>next_idx := x\<rparr>), l))
                           (pool_at ?p1 (tail_idx l))
                    else Some (?p1, l\<lparr>head_idx := x\<rparr>)) = Some (?p2, l)"
        using True tl by simp
      show "(pool_at ?p2 j \<noteq> None) = (pool_at ?p1 j \<noteq> None)" for j
        by (rule pool_set_live) (simp add: tl)
    qed
  next
    case False
    show ?thesis
      by (rule that [of ?p1 "l\<lparr>head_idx := x\<rparr>"]) (use False in auto)
  qed
  from live2 [of x] live1 [of x] x obtain o2 where o2: "pool_at p2 x = Some o2" by auto
  from x s o2 show ?thesis by (simp add: push_back_def Let_def)
qed

lemma deallocate_total: "pool_at p i = Some x \<Longrightarrow> \<exists>p'. deallocate p i = Some p'"
  by (auto simp: deallocate_def pool_at_def split: if_splits)

text \<open>In the chain of a level the neighbours of a member are members or
  \<open>INVALID_POOL_INDEX\<close>.\<close>

lemma level_ok_neighbours:
  assumes ok: "level_ok f s l xs" and x: "x \<in> set xs" and ord: "f x = Some ord"
  shows "(prev_idx ord \<noteq> INVALID_POOL_INDEX \<longrightarrow> f (prev_idx ord) \<noteq> None)
         \<and> (next_idx ord \<noteq> INVALID_POOL_INDEX \<longrightarrow> f (next_idx ord) \<noteq> None)"
proof -
  from ok have live: "\<And>y. y \<in> set xs \<Longrightarrow> f y \<noteq> None" by (rule level_ok_live)
  from ok have ch: "dll f INVALID_POOL_INDEX (head_idx l) xs" by (simp add: level_ok_def)
  from x obtain as bs where xs: "xs = as @ x # bs" by (meson split_list)
  from dll_split [OF ch [unfolded xs]] ord have
    pv: "prev_idx ord = (if as = [] then INVALID_POOL_INDEX else last as)"
    and nx: "next_idx ord = (if bs = [] then INVALID_POOL_INDEX else hd bs)"
    by auto
  have "f (last as) \<noteq> None" if "as \<noteq> []"
    using live [of "last as"] last_in_set [OF that] xs by auto
  moreover have "f (hd bs) \<noteq> None" if "bs \<noteq> []"
    using live [of "hd bs"] hd_in_set [OF that] xs by auto
  ultimately show ?thesis using pv nx by auto
qed

lemma level_ok_tail_live:
  assumes "level_ok f s l xs" and "tail_idx l \<noteq> INVALID_POOL_INDEX"
  shows "f (tail_idx l) \<noteq> None"
proof -
  from assms have "xs \<noteq> []" "tail_idx l = last xs" by (auto simp: level_ok_def split: if_splits)
  with level_ok_live [OF assms(1), of "last xs"] show ?thesis by simp
qed

lemma match_step_total:
  assumes c: "core (order_pool b) (order_map b) L C"
    and L: "L s' = pre @ l # post"
    and ne: "order_count l \<noteq> 0"
  shows "\<exists>st. match_step False cb oid tid s (b, l, r, n, env) = Some st"
proof -
  let ?p = "order_pool b"
  from c have all2: "list_all2 (level_ok (pool_at ?p) s') (L s') (C s')"
    by (simp add: core_def)
  from all2 [unfolded L] obtain cpre xs cpost where
    ok: "level_ok (pool_at ?p) s' l xs"
    by (rule list_all2_split)
  from ok ne have "xs \<noteq> []" by (auto simp: level_ok_def unat_0_iff)
  then obtain a rest where xs: "xs = a # rest" by (cases xs) auto
  with ok have hd: "head_idx l = a" by (auto simp: level_ok_def)
  from ok xs obtain mk where mk: "pool_at ?p a = Some mk" by (auto simp: level_ok_def)
  let ?fill = "std_min r (Order.qty_remaining mk)"
  let ?m1 = "mk\<lparr>Order.qty_remaining := Order.qty_remaining mk - ?fill\<rparr>"
  let ?p1 = "pool_set ?p a ?m1"
  let ?l1 = "l\<lparr>total_qty := total_qty l - ?fill\<rparr>"
  have rq: "reduce_qty False l ?fill = Some ?l1" by (simp add: reduce_qty_def)
  have live1: "(pool_at ?p1 j \<noteq> None) = (pool_at ?p j \<noteq> None)" for j
    by (rule pool_set_live) (simp add: mk)
  have a1: "pool_at ?p1 a = Some ?m1" by (simp add: pool_at_pool_set_live [OF mk])
  from level_ok_neighbours [OF ok _ mk] xs have
    "prev_idx mk \<noteq> INVALID_POOL_INDEX \<longrightarrow> pool_at ?p (prev_idx mk) \<noteq> None"
    "next_idx mk \<noteq> INVALID_POOL_INDEX \<longrightarrow> pool_at ?p (next_idx mk) \<noteq> None"
    by simp_all
  with live1 have
    "prev_idx ?m1 \<noteq> INVALID_POOL_INDEX \<Longrightarrow> pool_at ?p1 (prev_idx ?m1) \<noteq> None"
    "next_idx ?m1 \<noteq> INVALID_POOL_INDEX \<Longrightarrow> pool_at ?p1 (next_idx ?m1) \<noteq> None"
    by simp_all
  from remove_total [OF a1 this, of ?l1] obtain p2 l2 where
    rm: "remove ?p1 ?l1 a = Some (p2, l2)" by blast
  from remove_fieldsD [OF rm] have "(pool_at p2 a = None) = (pool_at ?p1 a = None)" by blast
  with a1 obtain m2 where m2: "pool_at p2 a = Some m2" by auto
  from deallocate_total [OF m2] obtain p3 where de: "deallocate p2 a = Some p3" ..
  show ?thesis
    by (simp add: match_step_def front_idx_def hd mk rq Let_def rm m2 de)
qed

lemma match_level_total:
  assumes "\<exists>C. core (order_pool b) (order_map b) (L(s' := pre @ l # post)) C"
  shows "\<exists>st. match_level False cb oid tid s (b, l, r, n, env) = Some st"
  using assms
proof (induction False cb oid tid s "(b, l, r, n, env)" arbitrary: b l r n env
       rule: match_level.induct)
  case (1 cb oid tid s b l r n env)
  show ?case
  proof (cases "0 <s r \<and> \<not> empty l")
    case True
    from "1.prems" obtain C where
      c: "core (order_pool b) (order_map b) (L(s' := pre @ l # post)) C" ..
    have Ls: "(L(s' := pre @ l # post)) s' = pre @ l # post" by simp
    from True have ne: "order_count l \<noteq> 0" by (simp add: empty_def)
    from match_step_total [OF c Ls ne, of cb oid tid s r n env] obtain st where
      ms: "match_step False cb oid tid s (b, l, r, n, env) = Some st" ..
    obtain b1 l1 r1 n1 env1 where st: "st = (b1, l1, r1, n1, env1)" by (cases st) auto
    from match_step_core [OF c Ls ne ms [unfolded st]]
    have "\<exists>C. core (order_pool b1) (order_map b1)
               ((L(s' := pre @ l # post))(s' := pre @ l1 # post)) C"
      by (rule conjunct1)
    then have "\<exists>C. core (order_pool b1) (order_map b1) (L(s' := pre @ l1 # post)) C"
      by (simp only: fun_upd_upd)
    from "1.hyps" [OF True ms [unfolded st] this] ms True st show ?thesis
      by (simp add: match_level.simps)
  next
    case False
    then show ?thesis by (auto simp: match_level.simps)
  qed
qed

lemma match_levels_total:
  assumes "\<exists>C. core (order_pool b) (order_map b) (L(s' := pre @ ls)) C"
  shows "\<exists>res. match_levels False cb oid tid s p mk ls (b, r, n, env) = Some res"
  using assms
proof (induction ls arbitrary: pre b r n env)
  case Nil
  then show ?case by simp
next
  case (Cons l ls)
  show ?case
  proof (cases "\<not> 0 <s r \<or> (\<not> mk \<and> s = Buy \<and> p <s PriceLevel.price l)
                \<or> (\<not> mk \<and> s = Sell \<and> PriceLevel.price l <s p)")
    case True
    then show ?thesis by auto
  next
    case False
    then have go: "0 <s r" "\<not> (\<not> mk \<and> s = Buy \<and> p <s PriceLevel.price l)"
      "\<not> (\<not> mk \<and> s = Sell \<and> PriceLevel.price l <s p)"
      by auto
    from match_level_total [OF Cons.prems, of cb oid tid s r n env] obtain st where
      ml: "match_level False cb oid tid s (b, l, r, n, env) = Some st" ..
    obtain b1 l1 r1 n1 env1 where st: "st = (b1, l1, r1, n1, env1)" by (cases st) auto
    from Cons.prems obtain C where
      c: "core (order_pool b) (order_map b) (L(s' := pre @ l # ls)) C" ..
    have Ls: "(L(s' := pre @ l # ls)) s' = pre @ l # ls" by simp
    have "(\<exists>C'. core (order_pool b1) (order_map b1)
                  ((L(s' := pre @ l # ls))(s' := pre @ l1 # ls)) C')
          \<and> PriceLevel.price l1 = PriceLevel.price l \<and> True"
      by (rule match_level_core [where K = "\<lambda>_. True", OF c Ls _ ml [unfolded st]]) simp_all
    then have "\<exists>C'. core (order_pool b1) (order_map b1)
                  ((L(s' := pre @ l # ls))(s' := pre @ l1 # ls)) C'"
      by (rule conjunct1)
    then obtain C1 where
      c1: "core (order_pool b1) (order_map b1) (L(s' := pre @ l1 # ls)) C1"
      unfolding fun_upd_upd by blast
    have "\<exists>res. match_levels False cb oid tid s p mk ls (b1, r1, n1, env1) = Some res"
    proof (cases "empty l1")
      case True
      then have "order_count l1 = 0" by (simp add: empty_def)
      from core_drop_empty [OF c1 _ this, of s' pre ls]
      have "\<exists>C. core (order_pool b1) (order_map b1) (L(s' := pre @ ls)) C"
        unfolding fun_upd_upd by simp
      then show ?thesis by (rule Cons.IH)
    next
      case False
      from c1 have "\<exists>C. core (order_pool b1) (order_map b1) (L(s' := (pre @ [l1]) @ ls)) C"
        by auto
      then show ?thesis by (rule Cons.IH)
    qed
    then obtain res where
      rec: "match_levels False cb oid tid s p mk ls (b1, r1, n1, env1) = Some res" ..
    obtain ls2 b2 r2 n2 e2 where res: "res = (ls2, b2, r2, n2, e2)" by (cases res) auto
    show ?thesis
      using go ml st rec res by (cases "empty l1") simp_all
  qed
qed

lemma match_order_total:
  assumes "book_inv b"
  shows "\<exists>res. match_order False cb b oid tid s p q mk env = Some res"
proof -
  from assms obtain C where c: "core (order_pool b) (order_map b) (levels_of b) C"
    by (rule book_invE)
  let ?ls = "if s = Buy then asks b else bids b"
  have "(levels_of b)(opposite s := [] @ ?ls) = levels_of b"
    by (rule ext) (cases s; simp)
  with c have "\<exists>C. core (order_pool b) (order_map b) ((levels_of b)(opposite s := [] @ ?ls)) C"
    by auto
  from match_levels_total [OF this, of cb oid tid s p mk q 0 env] obtain res where
    r: "match_levels False cb oid tid s p mk ?ls (b, q, 0, env) = Some res" ..
  obtain ls' b1 r' n' env' where "res = (ls', b1, r', n', env')" by (cases res) auto
  with r show ?thesis by (simp add: match_order_def)
qed

lemma add_market_total:
  assumes "book_inv b"
  shows "\<exists>res. add_market False cb b oid tid s q env = Some res"
proof -
  from match_order_total [OF assms, of cb oid tid s 0 q True env] obtain res where
    r: "match_order False cb b oid tid s 0 q True env = Some res" ..
  obtain b1 r1 n1 e1 where "res = (b1, r1, n1, e1)" by (cases res) auto
  with r show ?thesis by (simp add: add_market_def)
qed

lemma add_limit_internal_total:
  assumes inv: "book_inv b"
  shows "\<exists>res. add_limit_internal False cb b oid tid s p q env = Some res"
proof (cases "order_map b oid \<noteq> None")
  case True
  then show ?thesis by (simp add: add_limit_internal_def)
next
  case False
  from match_order_total [OF inv, of cb oid tid s p q False env] obtain res where
    r: "match_order False cb b oid tid s p q False env = Some res" ..
  obtain b1 r1 n1 e1 where res: "res = (b1, r1, n1, e1)" by (cases res) auto
  note mo = r [unfolded res]
  have inv1: "book_inv b1" by (rule match_order_book_inv [OF inv mo])
  then obtain C where c: "core (order_pool b1) (order_map b1) (levels_of b1) C"
    and so: "\<And>t. sorted_side t (levels_of b1 t)"
    by (rule book_invE) blast
  show ?thesis
  proof (cases "r1 <=s 0")
    case True
    with False mo show ?thesis by (simp add: add_limit_internal_def)
  next
    case pos: False
    obtain pool1 k where al: "allocate (order_pool b1) (new_Order oid tid s p r1) = (pool1, k)"
      by (cases "allocate (order_pool b1) (new_Order oid tid s p r1)")
    show ?thesis
    proof (cases "k = INVALID_POOL_INDEX")
      case True
      with False mo pos al show ?thesis by (simp add: add_limit_internal_def)
    next
      case k: False
      from free_ok_allocate [OF al k core_free_ok [OF c]] have
        p1: "pool_at pool1 = (pool_at (order_pool b1))(k \<mapsto> new_Order oid tid s p r1)"
        by simp
      obtain pre l post where
        foc: "find_or_create_level (levels_of b1 s) p (s = Buy)
              = Some (length pre, pre @ l # post)"
        and cases: "levels_of b1 s = pre @ l # post
                    \<or> (levels_of b1 s = pre @ post \<and> l = new_PriceLevel p)"
        by (rule find_or_create_level_sorted [OF so])
      have tail: "pool_at (order_pool b1) (tail_idx l) \<noteq> None"
        if "tail_idx l \<noteq> INVALID_POOL_INDEX"
      proof -
        from cases that have L: "levels_of b1 s = pre @ l # post"
          by (auto simp: new_PriceLevel_def)
        from c have "list_all2 (level_ok (pool_at (order_pool b1)) s) (levels_of b1 s) (C s)"
          by (simp add: core_def)
        from this [unfolded L] obtain cpre xs cpost where
          "level_ok (pool_at (order_pool b1)) s l xs"
          by (rule list_all2_split)
        from level_ok_tail_live [OF this that] show ?thesis .
      qed
      have "\<exists>p' l'. push_back pool1 l k = Some (p', l')"
        by (rule push_back_total [of _ _ "new_Order oid tid s p r1"])
           (use tail in \<open>auto simp: p1\<close>)
      then obtain p2 l2 where pb: "push_back pool1 l k = Some (p2, l2)" by blast
      from foc have foc': "s = Buy \<Longrightarrow> find_or_create_level (bids b1) p True
              = Some (length pre, pre @ l # post)"
        "s \<noteq> Buy \<Longrightarrow> find_or_create_level (asks b1) p False
              = Some (length pre, pre @ l # post)"
        by (simp_all add: levels_of_def)
      from False mo pos al k pb show ?thesis
        by (cases "s = Buy") (simp_all add: add_limit_internal_def Let_def foc')
    qed
  qed
qed

lemma remove_order_internal_total:
  assumes inv: "book_inv b" and k: "pool_at (order_pool b) k = Some ord"
  shows "\<exists>b1. remove_order_internal b k = Some b1"
proof -
  let ?s = "Order.side ord"
  from inv obtain C where c: "core (order_pool b) (order_map b) (levels_of b) C"
    and so: "\<And>s. sorted_side s (levels_of b s)"
    by (rule book_invE) blast
  from c k obtain pre l post cpre xs cpost where
    L: "levels_of b ?s = pre @ l # post" and pr: "PriceLevel.price l = Order.price ord"
    and C: "C ?s = cpre @ xs # cpost" and len: "length cpre = length pre" and kx: "k \<in> set xs"
    by (rule core_locate)
  have lv: "(if ?s = Buy then bids b else asks b) = pre @ l # post"
    using L by (simp add: levels_of_def)
  from so [of ?s] L have so1: "sorted_side ?s (pre @ l # post)" by simp
  have fl: "find_level (pre @ l # post) (Order.price ord) (?s = Buy) = Some (length pre)"
    using find_level_sorted [OF so1] pr by simp
  from c have "list_all2 (level_ok (pool_at (order_pool b)) ?s) (levels_of b ?s) (C ?s)"
    by (simp add: core_def)
  from this [unfolded L C] len have ok: "level_ok (pool_at (order_pool b)) ?s l xs"
    by (auto simp: list_all2_append list_all2_Cons1)
  from level_ok_neighbours [OF ok kx k] have
    "prev_idx ord \<noteq> INVALID_POOL_INDEX \<Longrightarrow> pool_at (order_pool b) (prev_idx ord) \<noteq> None"
    "next_idx ord \<noteq> INVALID_POOL_INDEX \<Longrightarrow> pool_at (order_pool b) (next_idx ord) \<noteq> None"
    by simp_all
  from remove_total [OF k this, of l] obtain p1 l1 where
    rm: "remove (order_pool b) l k = Some (p1, l1)" by blast
  from remove_fieldsD [OF rm] have "(pool_at p1 k = None) = (pool_at (order_pool b) k = None)"
    by blast
  with k obtain o1 where "pool_at p1 k = Some o1" by auto
  from deallocate_total [OF this] obtain p2 where de: "deallocate p1 k = Some p2" ..
  from k lv fl rm de show ?thesis
    by (simp add: remove_order_internal_def Let_def)
qed

lemma cancel_total:
  assumes inv: "book_inv b"
  shows "\<exists>res. cancel b oid = Some res"
proof (cases "order_map b oid")
  case None
  then show ?thesis by (simp add: cancel_def)
next
  case (Some k)
  from inv obtain C where c: "core (order_pool b) (order_map b) (levels_of b) C"
    by (rule book_invE)
  from core_map [OF c, of oid k] Some obtain ord where
    k: "pool_at (order_pool b) k = Some ord" by auto
  from remove_order_internal_total [OF inv k] obtain b1 where
    "remove_order_internal b k = Some b1" ..
  with Some k show ?thesis by (simp add: cancel_def)
qed

lemma modify_total:
  assumes inv: "book_inv b"
  shows "\<exists>res. modify False cb b oid new_qty new_price env = Some res"
proof (cases "order_map b oid")
  case None
  then show ?thesis by (simp add: modify_def)
next
  case (Some k)
  from inv obtain C where c: "core (order_pool b) (order_map b) (levels_of b) C"
    and so: "\<And>s. sorted_side s (levels_of b s)"
    by (rule book_invE) blast
  from core_map [OF c, of oid k] Some obtain ord where
    k: "pool_at (order_pool b) k = Some ord" and id: "Order.order_id ord = oid" by auto
  let ?s = "Order.side ord"
  from remove_order_internal_total [OF inv k] obtain b1 where
    ro: "remove_order_internal b k = Some b1" ..
  from remove_order_book_inv [OF inv k ro] id
  have inv1: "book_inv (b1\<lparr>order_map := (order_map b1)(oid := None)\<rparr>)" by simp
  have readd: "\<exists>res. add_limit_internal False cb (b1\<lparr>order_map := (order_map b1)(oid := None)\<rparr>)
                  oid tid s p q env = Some res" for tid s p q
    by (rule add_limit_internal_total [OF inv1])
  show ?thesis
  proof (cases "(new_price \<noteq> 0 \<and> new_price \<noteq> Order.price ord)
                \<or> \<not> new_qty <s Order.qty_remaining ord")
    case True
    from readd [of "Order.trader_id ord" ?s new_price new_qty]
         readd [of "Order.trader_id ord" ?s "Order.price ord" new_qty]
    show ?thesis using True Some k ro by (auto simp: modify_def)
  next
    case False
    from c k obtain pre l post cpre xs cpost where
      L: "levels_of b ?s = pre @ l # post" and pr: "PriceLevel.price l = Order.price ord"
      by (rule core_locate)
    have lv: "(if ?s = Buy then bids b else asks b) = pre @ l # post"
      using L by (simp add: levels_of_def)
    from so [of ?s] L have so1: "sorted_side ?s (pre @ l # post)" by simp
    have fl: "find_level (pre @ l # post) (Order.price ord) (?s = Buy) = Some (length pre)"
      using find_level_sorted [OF so1] pr by simp
    from False have br: "\<not> (new_price \<noteq> 0 \<and> new_price \<noteq> Order.price ord)"
      "new_qty <s Order.qty_remaining ord" by auto
    from Some k lv fl show ?thesis
      by (simp add: modify_def Let_def reduce_qty_def br)
  qed
qed

lemma apply_op_total:
  assumes "book_inv b"
  shows "\<exists>st. apply_op False cb (b, env) call = Some st"
proof (cases call)
  case (OpAddLimit oid tid s p q)
  with add_limit_internal_total [OF assms, of cb oid tid s p q env] show ?thesis
    by (auto simp: apply_op_def add_limit_def)
next
  case (OpAddMarket oid tid s q)
  with add_market_total [OF assms, of cb oid tid s q env] show ?thesis
    by (auto simp: apply_op_def)
next
  case (OpCancel oid)
  with cancel_total [OF assms, of oid] show ?thesis
    by (auto simp: apply_op_def)
next
  case (OpModify oid new_qty new_price)
  with modify_total [OF assms, of cb oid new_qty new_price env] show ?thesis
    by (auto simp: apply_op_def)
qed

lemma apply_ops_total:
  "book_inv b \<Longrightarrow> \<exists>st. apply_ops False cb (b, env) calls = Some st"
proof (induction calls arbitrary: b env)
  case Nil
  then show ?case by simp
next
  case (Cons call calls)
  from apply_op_total [OF Cons.prems, of cb env call] obtain st where
    1: "apply_op False cb (b, env) call = Some st" ..
  obtain b1 env1 where st: "st = (b1, env1)" by (cases st)
  from apply_op_book_inv [OF Cons.prems 1 [unfolded st]] have "book_inv b1" .
  from Cons.IH [OF this, of env1] 1 st show ?case by simp
qed

section \<open>Result codes of modify\<close>

text \<open>
  C1 fails as stated: a modify that changes the price cancels the order and adds it
  again through \<open>add_limit_internal\<close>; when nothing crosses at the new price the
  result is \<open>Accepted\<close>.  Here order 1 (Buy 10 at 100) is modified to price 101 on a
  book with no asks.
\<close>

theorem modify_accepted_counterexample:
  "order_map book_one_bid 1 = Some 0
   \<and> result_of (modify True rec_trades book_one_bid 1 10 101 []) = Some Accepted"
  by code_simp

text \<open>
  C1, amended.  Every call of \<open>modify\<close> that returns, in a build with assertions or
  under \<open>NDEBUG\<close>, returns one of Modified, Accepted, PartiallyFilled, FullyFilled or
  NotFound, and NotFound exactly when the order id is not in the index; so it never
  returns Rejected.  Under \<open>NDEBUG\<close> every call of \<open>modify\<close> on a book that a sequence
  of calls has reached from a new book returns.
\<close>

theorem modify_result_codes:
  "(\<forall>b' env' resp. modify dbg cb b oid new_qty new_price env = Some (b', env', resp) \<longrightarrow>
      (result resp = Modified \<or> result resp = Accepted \<or> result resp = PartiallyFilled
       \<or> result resp = FullyFilled \<or> result resp = NotFound)
      \<and> (result resp = NotFound \<longleftrightarrow> order_map b oid = None))
   \<and> (\<forall>dbg0 cb0 cap env0 calls env1.
        apply_ops dbg0 cb0 (new_OrderBook cap, env0) calls = Some (b, env1) \<longrightarrow>
        (\<exists>res. modify False cb b oid new_qty new_price env = Some res))"
proof (intro conjI)
  show "\<forall>b' env' resp. modify dbg cb b oid new_qty new_price env = Some (b', env', resp) \<longrightarrow>
      (result resp = Modified \<or> result resp = Accepted \<or> result resp = PartiallyFilled
       \<or> result resp = FullyFilled \<or> result resp = NotFound)
      \<and> (result resp = NotFound \<longleftrightarrow> order_map b oid = None)"
    using modify_codes [of dbg cb b oid new_qty new_price env] by blast
next
  show "\<forall>dbg0 cb0 cap env0 calls env1.
        apply_ops dbg0 cb0 (new_OrderBook cap, env0) calls = Some (b, env1) \<longrightarrow>
        (\<exists>res. modify False cb b oid new_qty new_price env = Some res)"
  proof (intro allI impI)
    fix dbg0 cap calls and cb0 :: "(Trade \<Rightarrow> 'c \<Rightarrow> 'c) option" and env0 env1 :: 'c
    assume "apply_ops dbg0 cb0 (new_OrderBook cap, env0) calls = Some (b, env1)"
    then have "book_inv b" by (rule reachable_book_inv)
    then show "\<exists>res. modify False cb b oid new_qty new_price env = Some res"
      by (rule modify_total)
  qed
qed

theorem modify_result_codes_witness:
  "(\<exists>b' env' resp. modify True rec_trades book_one_bid 1 5 0 [] = Some (b', env', resp)
      \<and> (result resp = Modified \<or> result resp = Accepted \<or> result resp = PartiallyFilled
          \<or> result resp = FullyFilled \<or> result resp = NotFound)
      \<and> result resp \<noteq> NotFound)
   \<and> (\<exists>b' env' resp. modify False rec_trades book_one_bid 1 (- 5) 0 [] = Some (b', env', resp)
      \<and> (result resp = Modified \<or> result resp = Accepted \<or> result resp = PartiallyFilled
          \<or> result resp = FullyFilled \<or> result resp = NotFound)
      \<and> result resp \<noteq> NotFound)"
proof
  have "modify True rec_trades book_one_bid 1 5 0 [] \<noteq> None" by code_simp
  then obtain b' env' resp where
    eq: "modify True rec_trades book_one_bid 1 5 0 [] = Some (b', env', resp)" by auto
  have "order_map book_one_bid 1 \<noteq> None" by code_simp
  with modify_result_codes [THEN conjunct1, rule_format, OF eq] eq
  show "\<exists>b' env' resp. modify True rec_trades book_one_bid 1 5 0 [] = Some (b', env', resp)
      \<and> (result resp = Modified \<or> result resp = Accepted \<or> result resp = PartiallyFilled
          \<or> result resp = FullyFilled \<or> result resp = NotFound)
      \<and> result resp \<noteq> NotFound"
    by auto
next
  have "add_limit True rec_trades (new_OrderBook 4) 1 0 Buy 100 10 [] \<noteq> None" by code_simp
  then obtain b0 ts0 r0 where
    al: "add_limit True rec_trades (new_OrderBook 4) 1 0 Buy 100 10 [] = Some (b0, ts0, r0)"
    by auto
  then have reach: "apply_ops True rec_trades (new_OrderBook 4, []) [OpAddLimit 1 0 Buy 100 10]
                    = Some (book_one_bid, ts0)"
    by (simp add: apply_op_def book_one_bid_def book_after_def)
  from modify_result_codes [THEN conjunct2, rule_format, OF reach,
    of rec_trades 1 "- 5" 0 "[]"]
  obtain b' env' resp where
    eq: "modify False rec_trades book_one_bid 1 (- 5) 0 [] = Some (b', env', resp)"
    by (metis prod_cases3)
  have "order_map book_one_bid 1 \<noteq> None" by code_simp
  with modify_result_codes [THEN conjunct1, rule_format, OF eq] eq
  show "\<exists>b' env' resp. modify False rec_trades book_one_bid 1 (- 5) 0 [] = Some (b', env', resp)
      \<and> (result resp = Modified \<or> result resp = Accepted \<or> result resp = PartiallyFilled
          \<or> result resp = FullyFilled \<or> result resp = NotFound)
      \<and> result resp \<noteq> NotFound"
    by auto
qed

section \<open>Market orders\<close>

text \<open>
  C10.  \<open>add_market\<close> returns what the matching returns: with \<open>r\<close> the remaining
  quantity and \<open>n\<close> the number of fills that \<open>match_order\<close> gives for the market order,
  the response has \<open>qty_remaining = r\<close>, \<open>qty_filled = q - r\<close>, \<open>trade_count = n\<close>, and
  the result FullyFilled exactly when \<open>r \<le> 0\<close> and PartiallyFilled otherwise, never
  Accepted or Rejected.  The counters advance by the fills, and with the recording
  observer the trades of the call are \<open>trade_count\<close> many and their quantities sum up
  to \<open>qty_filled\<close>, so that the remaining quantity is the quantity minus what was
  traded.  No order is left resting: the taker's own side is unchanged, no id enters
  the index and no pool slot comes into use.  Against an empty opposite side a market
  order (of positive quantity) returns PartiallyFilled with \<open>qty_filled = 0\<close> and
  \<open>trade_count = 0\<close>, and leaves book and observer as they were.
\<close>

theorem add_market_result:
  "(\<forall>b1 r n env1. match_order dbg cb b oid tid s 0 q True env = Some (b1, r, n, env1) \<longrightarrow>
       add_market dbg cb b oid tid s q env =
         Some (b1, env1,
               \<lparr>result = (if r <=s 0 then FullyFilled else PartiallyFilled),
                OrderResponse.order_id = oid, qty_filled = q - r,
                OrderResponse.qty_remaining = r, OrderResponse.trade_count = n\<rparr>))
   \<and> (\<forall>b' env' resp. add_market dbg cb b oid tid s q env = Some (b', env', resp) \<longrightarrow>
       match_order dbg cb b oid tid s 0 q True env
         = Some (b', OrderResponse.qty_remaining resp, OrderResponse.trade_count resp, env')
       \<and> (result resp = FullyFilled \<longleftrightarrow> OrderResponse.qty_remaining resp <=s 0)
       \<and> (result resp = PartiallyFilled \<longleftrightarrow> \<not> OrderResponse.qty_remaining resp <=s 0)
       \<and> result resp \<noteq> Accepted \<and> result resp \<noteq> Rejected
       \<and> qty_filled resp = q - OrderResponse.qty_remaining resp
       \<and> total_volume b' = total_volume b + qty_filled resp
       \<and> total_trades b' = total_trades b + of_nat (OrderResponse.trade_count resp)
       \<and> (if s = Buy then bids b' = bids b else asks b' = asks b)
       \<and> (\<forall>x. order_map b' x = None \<or> order_map b' x = order_map b x)
       \<and> (\<forall>j. pool_at (order_pool b) j = None \<longrightarrow> pool_at (order_pool b') j = None))
   \<and> (\<forall>ts b' ts' resp.
        add_market dbg rec_trades b oid tid s q ts = Some (b', ts', resp) \<longrightarrow>
        (\<exists>new. ts' = ts @ new \<and> length new = OrderResponse.trade_count resp
               \<and> sum_list (map Trade.qty new) = qty_filled resp
               \<and> OrderResponse.qty_remaining resp = q - sum_list (map Trade.qty new)))
   \<and> ((if s = Buy then asks b else bids b) = [] \<and> 0 <s q \<longrightarrow>
         add_market dbg cb b oid tid s q env =
           Some (b, env,
                 \<lparr>result = PartiallyFilled, OrderResponse.order_id = oid, qty_filled = 0,
                  OrderResponse.qty_remaining = q, OrderResponse.trade_count = 0\<rparr>))"
proof (intro conjI)
  show "\<forall>b1 r n env1. match_order dbg cb b oid tid s 0 q True env = Some (b1, r, n, env1) \<longrightarrow>
       add_market dbg cb b oid tid s q env =
         Some (b1, env1,
               \<lparr>result = (if r <=s 0 then FullyFilled else PartiallyFilled),
                OrderResponse.order_id = oid, qty_filled = q - r,
                OrderResponse.qty_remaining = r, OrderResponse.trade_count = n\<rparr>)"
    by (simp add: add_market_def new_response_def)
next
  show "\<forall>b' env' resp. add_market dbg cb b oid tid s q env = Some (b', env', resp) \<longrightarrow>
       match_order dbg cb b oid tid s 0 q True env
         = Some (b', OrderResponse.qty_remaining resp, OrderResponse.trade_count resp, env')
       \<and> (result resp = FullyFilled \<longleftrightarrow> OrderResponse.qty_remaining resp <=s 0)
       \<and> (result resp = PartiallyFilled \<longleftrightarrow> \<not> OrderResponse.qty_remaining resp <=s 0)
       \<and> result resp \<noteq> Accepted \<and> result resp \<noteq> Rejected
       \<and> qty_filled resp = q - OrderResponse.qty_remaining resp
       \<and> total_volume b' = total_volume b + qty_filled resp
       \<and> total_trades b' = total_trades b + of_nat (OrderResponse.trade_count resp)
       \<and> (if s = Buy then bids b' = bids b else asks b' = asks b)
       \<and> (\<forall>x. order_map b' x = None \<or> order_map b' x = order_map b x)
       \<and> (\<forall>j. pool_at (order_pool b) j = None \<longrightarrow> pool_at (order_pool b') j = None)"
  proof (rule allI, rule allI, rule allI, rule impI)
    fix b' env' resp
    assume am: "add_market dbg cb b oid tid s q env = Some (b', env', resp)"
    then obtain r n where
      mo: "match_order dbg cb b oid tid s 0 q True env = Some (b', r, n, env')"
      and resp: "resp = (new_response oid)
                    \<lparr>OrderResponse.trade_count := n, qty_filled := q - r,
                     OrderResponse.qty_remaining := r,
                     result := (if r <=s 0 then FullyFilled else PartiallyFilled)\<rparr>"
      by (auto simp: add_market_def split: option.splits)
    from resp have f: "OrderResponse.qty_remaining resp = r" "OrderResponse.trade_count resp = n"
      "qty_filled resp = q - r" "result resp = (if r <=s 0 then FullyFilled else PartiallyFilled)"
      by simp_all
    note c = match_order_counters [OF mo]
    note same = match_order_same_side [OF mo]
    have om: "\<forall>x. order_map b' x = None \<or> order_map b' x = order_map b x"
      using match_order_order_map [OF mo] by blast
    have sl: "\<forall>j. pool_at (order_pool b) j = None \<longrightarrow> pool_at (order_pool b') j = None"
      using match_order_no_new_slot [OF mo] by blast
    from mo f c same om sl show
      "match_order dbg cb b oid tid s 0 q True env
         = Some (b', OrderResponse.qty_remaining resp, OrderResponse.trade_count resp, env')
       \<and> (result resp = FullyFilled \<longleftrightarrow> OrderResponse.qty_remaining resp <=s 0)
       \<and> (result resp = PartiallyFilled \<longleftrightarrow> \<not> OrderResponse.qty_remaining resp <=s 0)
       \<and> result resp \<noteq> Accepted \<and> result resp \<noteq> Rejected
       \<and> qty_filled resp = q - OrderResponse.qty_remaining resp
       \<and> total_volume b' = total_volume b + qty_filled resp
       \<and> total_trades b' = total_trades b + of_nat (OrderResponse.trade_count resp)
       \<and> (if s = Buy then bids b' = bids b else asks b' = asks b)
       \<and> (\<forall>x. order_map b' x = None \<or> order_map b' x = order_map b x)
       \<and> (\<forall>j. pool_at (order_pool b) j = None \<longrightarrow> pool_at (order_pool b') j = None)"
      by simp
  qed
next
  show "\<forall>ts b' ts' resp.
        add_market dbg rec_trades b oid tid s q ts = Some (b', ts', resp) \<longrightarrow>
        (\<exists>new. ts' = ts @ new \<and> length new = OrderResponse.trade_count resp
               \<and> sum_list (map Trade.qty new) = qty_filled resp
               \<and> OrderResponse.qty_remaining resp = q - sum_list (map Trade.qty new))"
  proof (intro allI impI)
    fix ts b' ts' resp
    assume "add_market dbg rec_trades b oid tid s q ts = Some (b', ts', resp)"
    then obtain r n where
      mo: "match_order dbg rec_trades b oid tid s 0 q True ts = Some (b', r, n, ts')"
      and f: "OrderResponse.qty_remaining resp = r" "OrderResponse.trade_count resp = n"
        "qty_filled resp = q - r"
      by (auto simp: add_market_def new_response_def split: option.splits)
    from match_order_trades [OF mo] f
    show "\<exists>new. ts' = ts @ new \<and> length new = OrderResponse.trade_count resp
               \<and> sum_list (map Trade.qty new) = qty_filled resp
               \<and> OrderResponse.qty_remaining resp = q - sum_list (map Trade.qty new)"
      by auto
  qed
next
  show "(if s = Buy then asks b else bids b) = [] \<and> 0 <s q \<longrightarrow>
         add_market dbg cb b oid tid s q env =
           Some (b, env,
                 \<lparr>result = PartiallyFilled, OrderResponse.order_id = oid, qty_filled = 0,
                  OrderResponse.qty_remaining = q, OrderResponse.trade_count = 0\<rparr>)"
  proof
    assume a: "(if s = Buy then asks b else bids b) = [] \<and> 0 <s q"
    then have "match_order dbg cb b oid tid s 0 q True env = Some (b, q, 0, env)"
      by (intro match_order_empty_side) simp
    with a show "add_market dbg cb b oid tid s q env =
           Some (b, env,
                 \<lparr>result = PartiallyFilled, OrderResponse.order_id = oid, qty_filled = 0,
                  OrderResponse.qty_remaining = q, OrderResponse.trade_count = 0\<rparr>)"
      by (simp add: add_market_def new_response_def signed.not_le [symmetric])
  qed
qed

theorem add_market_result_witness:
  "(\<exists>b' ts' resp. add_market True rec_trades book_one_ask 2 1 Buy 4 [] = Some (b', ts', resp)
       \<and> result resp = FullyFilled \<and> qty_filled resp = 4 \<and> bids b' = []
       \<and> order_map b' 2 = None
       \<and> total_volume b' = total_volume book_one_ask + 4
       \<and> (\<exists>new. ts' = [] @ new \<and> length new = 1 \<and> sum_list (map Trade.qty new) = 4))
   \<and> add_market True rec_trades (new_OrderBook 4) 1 0 Buy 5 [] =
        Some (new_OrderBook 4, [],
              \<lparr>result = PartiallyFilled, OrderResponse.order_id = 1, qty_filled = 0,
               OrderResponse.qty_remaining = 5, OrderResponse.trade_count = 0\<rparr>)"
proof
  note t = add_market_result [of True rec_trades book_one_ask 2 1 Buy 4 "[]"]
  have "add_market True rec_trades book_one_ask 2 1 Buy 4 [] \<noteq> None" by code_simp
  then obtain b' ts' resp where
    eq: "add_market True rec_trades book_one_ask 2 1 Buy 4 [] = Some (b', ts', resp)" by auto
  have "map_option (\<lambda>(b, env, resp). (OrderResponse.qty_remaining resp,
                                         OrderResponse.trade_count resp))
             (add_market True rec_trades book_one_ask 2 1 Buy 4 []) = Some (0, 1)"
    by code_simp
  with eq have r: "OrderResponse.qty_remaining resp = 0" "OrderResponse.trade_count resp = 1"
    by simp_all
  have b: "bids book_one_ask = []" "order_map book_one_ask 2 = None" by code_simp+
  from t [THEN conjunct2, THEN conjunct1, rule_format, OF eq] r b
  have 1: "result resp = FullyFilled" "qty_filled resp = 4" "bids b' = []"
    "order_map b' 2 = None" "total_volume b' = total_volume book_one_ask + 4"
    by (auto simp: word_sle_eq)
  from t [THEN conjunct2, THEN conjunct2, THEN conjunct1, rule_format, OF eq] r 1
  have 2: "\<exists>new. ts' = [] @ new \<and> length new = 1 \<and> sum_list (map Trade.qty new) = 4"
    by simp
  from eq 1 2
  show "\<exists>b' ts' resp. add_market True rec_trades book_one_ask 2 1 Buy 4 [] = Some (b', ts', resp)
       \<and> result resp = FullyFilled \<and> qty_filled resp = 4 \<and> bids b' = []
       \<and> order_map b' 2 = None
       \<and> total_volume b' = total_volume book_one_ask + 4
       \<and> (\<exists>new. ts' = [] @ new \<and> length new = 1 \<and> sum_list (map Trade.qty new) = 4)"
    by blast
next
  have e: "(if Buy = Buy then asks (new_OrderBook 4) else bids (new_OrderBook 4)) = []
           \<and> 0 <s (5 :: 64 word)"
    by (simp add: new_OrderBook_def word_sless_alt)
  from add_market_result [THEN conjunct2, THEN conjunct2, THEN conjunct2, rule_format, OF e,
    of True rec_trades 1 0 "[]"]
  show "add_market True rec_trades (new_OrderBook 4) 1 0 Buy 5 [] =
        Some (new_OrderBook 4, [],
              \<lparr>result = PartiallyFilled, OrderResponse.order_id = 1, qty_filled = 0,
               OrderResponse.qty_remaining = 5, OrderResponse.trade_count = 0\<rparr>)" .
qed

section \<open>Pool exhaustion in add_limit\<close>




section \<open>A resting order of quantity zero\<close>

text \<open>
  C3 at the failing input.  On the book with the single bid 10 at 100 (order 1),
  modify(1, new_qty 0, new_price 0) takes the reducing branch: the result is Modified
  and order 1 stays in the index and linked as head and tail of the bid level at 100,
  with \<open>qty_remaining = 0\<close>; the level keeps \<open>order_count = 1\<close> with
  \<open>total_qty = 0\<close>.  A later crossing sell then trades a quantity of zero against it.
\<close>

theorem modify_zero_qty_stays_linked:
  "result_of (modify True rec_trades book_one_bid 1 0 0 []) = Some Modified
   \<and> order_map book_zero_qty 1 = Some 0
   \<and> bids book_zero_qty =
       [\<lparr>PriceLevel.price = 100, total_qty = 0, order_count = 1, head_idx = 0, tail_idx = 0\<rparr>]
   \<and> map_option Order.qty_remaining (pool_at (order_pool book_zero_qty) 0) = Some 0
   \<and> trades_after (add_limit True rec_trades book_zero_qty 2 1 Sell 100 5 []) =
       [new_Trade 1 2 0 1 100 0 Sell]"
  by code_simp

section \<open>Order of the level vectors\<close>

text \<open>
  C6.  In every book that a sequence of calls of \<open>add_limit\<close>, \<open>add_market\<close>,
  \<open>cancel\<close> and \<open>modify\<close> reaches from a new book, in either build and with any
  observer, the bids are strictly decreasing in price, the asks are strictly
  increasing in price, and no level of either vector has \<open>order_count = 0\<close>.  Under
  \<open>NDEBUG\<close> every sequence of calls returns; with assertions a call can only stop at
  the assertion of \<open>reduce_qty\<close>.
\<close>

theorem levels_sorted_nonempty:
  "(\<exists>b env'. apply_ops False cb (new_OrderBook cap, env) calls = Some (b, env'))
   \<and> (\<forall>b env'. apply_ops dbg cb (new_OrderBook cap, env) calls = Some (b, env') \<longrightarrow>
         strictly_decreasing (bids b) \<and> strictly_increasing (asks b)
         \<and> (\<forall>l\<in>set (bids b) \<union> set (asks b). order_count l \<noteq> 0))"
proof (intro conjI)
  from apply_ops_total [OF book_inv_new, of cb cap env calls]
  show "\<exists>b env'. apply_ops False cb (new_OrderBook cap, env) calls = Some (b, env')"
    by auto
next
  show "\<forall>b env'. apply_ops dbg cb (new_OrderBook cap, env) calls = Some (b, env') \<longrightarrow>
         strictly_decreasing (bids b) \<and> strictly_increasing (asks b)
         \<and> (\<forall>l\<in>set (bids b) \<union> set (asks b). order_count l \<noteq> 0)"
  proof (intro allI impI)
    fix b env'
    assume "apply_ops dbg cb (new_OrderBook cap, env) calls = Some (b, env')"
    from reachable_book_inv [OF this] have inv: "book_inv b" .
    then have "sorted_side Buy (levels_of b Buy)" "sorted_side Sell (levels_of b Sell)"
      and "\<forall>l\<in>set (levels_of b Buy). order_count l \<noteq> 0"
      and "\<forall>l\<in>set (levels_of b Sell). order_count l \<noteq> 0"
      unfolding book_inv_def by blast+
    then show "strictly_decreasing (bids b) \<and> strictly_increasing (asks b)
         \<and> (\<forall>l\<in>set (bids b) \<union> set (asks b). order_count l \<noteq> 0)"
      by (auto simp: sorted_side_def level_before_def strictly_decreasing_def
            strictly_increasing_def)
  qed
qed

theorem levels_sorted_nonempty_witness:
  "\<exists>b ts. apply_ops True rec_trades (new_OrderBook 8, []) example_calls = Some (b, ts)
     \<and> map PriceLevel.price (bids b) = [101, 100]
     \<and> map PriceLevel.price (asks b) = [102, 103]
     \<and> strictly_decreasing (bids b) \<and> strictly_increasing (asks b)
     \<and> (\<forall>l\<in>set (bids b) \<union> set (asks b). order_count l \<noteq> 0)"
proof -
  have "apply_ops True rec_trades (new_OrderBook 8, []) example_calls \<noteq> None" by code_simp
  then obtain b ts where
    eq: "apply_ops True rec_trades (new_OrderBook 8, []) example_calls = Some (b, ts)" by auto
  have "map_option (\<lambda>(b, ts). (map PriceLevel.price (bids b), map PriceLevel.price (asks b)))
          (apply_ops True rec_trades (new_OrderBook 8, []) example_calls)
        = Some ([101, 100], [102, 103])"
    by code_simp
  with eq have pr: "map PriceLevel.price (bids b) = [101, 100]"
    "map PriceLevel.price (asks b) = [102, 103]" by simp_all
  from levels_sorted_nonempty [THEN conjunct2, rule_format, OF eq] have
    "apply_ops True rec_trades (new_OrderBook 8, []) example_calls = Some (b, ts)
     \<and> map PriceLevel.price (bids b) = [101, 100]
     \<and> map PriceLevel.price (asks b) = [102, 103]
     \<and> strictly_decreasing (bids b) \<and> strictly_increasing (asks b)
     \<and> (\<forall>l\<in>set (bids b) \<union> set (asks b). order_count l \<noteq> 0)"
    using eq pr by simp
  then show ?thesis by (intro exI)
qed

section \<open>Price and side of a trade\<close>

text \<open>
  C7.  In a book reached from a new book, every trade that the matching loop emits
  for a taker of side \<open>s\<close>, limit or market, has \<open>taker_side = s\<close>, and its maker is an
  order that rested in the book when the matching began: the index maps the trade's
  \<open>maker_order_id\<close> to it, it is on the side opposite to \<open>s\<close>, and the trade's price is
  its price, whatever the limit price \<open>p\<close> of the taker is.
\<close>

theorem trade_price_and_side:
  assumes reach: "apply_ops dbg0 cb0 (new_OrderBook cap, env0) calls = Some (b, env1)"
    and mo: "match_order dbg rec_trades b oid tid s p q mk ts = Some (b', r', n', ts')"
  shows "\<exists>new. ts' = ts @ new \<and> length new = n'
           \<and> (\<forall>t\<in>set new. taker_side t = s
                \<and> (\<exists>i maker. order_map b (maker_order_id t) = Some i
                      \<and> pool_at (order_pool b) i = Some maker
                      \<and> Trade.price t = Order.price maker
                      \<and> Order.side maker = opposite s))"
proof -
  from reachable_book_inv [OF reach] have inv: "book_inv b" .
  then obtain C where c: "core (order_pool b) (order_map b) (levels_of b) C"
    by (rule book_invE)
  let ?Q = "\<lambda>t. taker_side t = s
              \<and> (\<exists>i maker. pool_at (order_pool b) i = Some maker
                    \<and> Order.order_id maker = maker_order_id t
                    \<and> Trade.price t = Order.price maker
                    \<and> Order.side maker = opposite s)"
  let ?K = "\<lambda>(pl, r :: 64 word, n, e).
              (\<forall>j o1. pool_at pl j = Some o1 \<longrightarrow>
                 (\<exists>ord. pool_at (order_pool b) j = Some ord \<and> static ord = static o1))
              \<and> (\<exists>new. e = ts @ new \<and> length new = n \<and> (\<forall>t\<in>set new. ?Q t))"
  have "book_inv b' \<and> ?K (order_pool b', r', n', ts')"
  proof (rule match_order_inv [where K = ?K, OF inv _ mo], goal_cases)
    case 1
    then show ?case by simp
  next
    case (2 b0 l r n env b1 l1 r1 n1 env1 maker)
    from 2(1) have fr: "\<And>j o1. pool_at (order_pool b0) j = Some o1 \<Longrightarrow>
        \<exists>ord. pool_at (order_pool b) j = Some ord \<and> static ord = static o1"
      by auto
    from 2(1) obtain new where new: "env = ts @ new" "length new = n" "\<forall>t\<in>set new. ?Q t"
      by auto
    let ?t = "new_Trade (Order.order_id maker) oid (Order.trader_id maker) tid
                (Order.price maker) (std_min r (Order.qty_remaining maker)) s"
    from match_step_trade [OF 2(2,3)] have e1: "env1 = env @ [?t]" and n1: "n1 = Suc n"
      by (simp_all add: emit_trade_def rec_trades_def)
    from fr [OF 2(3)] obtain m0 where
      m0: "pool_at (order_pool b) (head_idx l) = Some m0" "static m0 = static maker"
      by auto
    from m0 2(4) have "Order.order_id m0 = maker_order_id ?t"
      "Trade.price ?t = Order.price m0" "Order.side m0 = opposite s" "taker_side ?t = s"
      by (simp_all add: new_Trade_def static_def)
    with m0(1) have "?Q ?t" by blast
    with new e1 n1 have "env1 = ts @ (new @ [?t]) \<and> length (new @ [?t]) = n1
        \<and> (\<forall>t\<in>set (new @ [?t]). ?Q t)"
      by simp
    then have "\<exists>new. env1 = ts @ new \<and> length new = n1 \<and> (\<forall>t\<in>set new. ?Q t)" by blast
    moreover have "\<forall>j o1. pool_at (order_pool b1) j = Some o1 \<longrightarrow>
                 (\<exists>ord. pool_at (order_pool b) j = Some ord \<and> static ord = static o1)"
    proof (intro allI impI)
      fix j o1
      assume "pool_at (order_pool b1) j = Some o1"
      from match_step_static [OF 2(2) this] obtain o0 where
        "pool_at (order_pool b0) j = Some o0" "static o0 = static o1" by auto
      with fr [of j o0] show "\<exists>ord. pool_at (order_pool b) j = Some ord \<and> static ord = static o1"
        by auto
    qed
    ultimately show ?case by simp
  qed
  then obtain new where new: "ts' = ts @ new" "length new = n'" "\<forall>t\<in>set new. ?Q t"
    by auto
  have "taker_side t = s
        \<and> (\<exists>i maker. order_map b (maker_order_id t) = Some i
              \<and> pool_at (order_pool b) i = Some maker
              \<and> Trade.price t = Order.price maker
              \<and> Order.side maker = opposite s)" if "t \<in> set new" for t
  proof -
    from new(3) that obtain i maker where
      m: "taker_side t = s" "pool_at (order_pool b) i = Some maker"
         "Order.order_id maker = maker_order_id t" "Trade.price t = Order.price maker"
         "Order.side maker = opposite s"
      by blast
    from core_map [OF c, of "maker_order_id t" i] m(2,3)
    have "order_map b (maker_order_id t) = Some i" by simp
    with m show ?thesis by blast
  qed
  with new(1,2) show ?thesis by blast
qed

theorem trade_price_and_side_witness:
  "\<exists>b' r' n' ts'.
     match_order True rec_trades book_two_asks 3 1 Buy 105 15 False [] = Some (b', r', n', ts')
     \<and> map Trade.price ts' = [100, 101] \<and> n' = 2
     \<and> (\<forall>t\<in>set ts'. taker_side t = Buy
          \<and> (\<exists>i maker. order_map book_two_asks (maker_order_id t) = Some i
                \<and> pool_at (order_pool book_two_asks) i = Some maker
                \<and> Trade.price t = Order.price maker
                \<and> Order.side maker = opposite Buy))"
proof -
  have "apply_ops True rec_trades (new_OrderBook 4, [])
          [OpAddLimit 1 0 Sell 100 10, OpAddLimit 2 0 Sell 101 10] \<noteq> None"
    by code_simp
  then obtain b0 ts0 where
    "apply_ops True rec_trades (new_OrderBook 4, [])
       [OpAddLimit 1 0 Sell 100 10, OpAddLimit 2 0 Sell 101 10] = Some (b0, ts0)"
    by auto
  then have reach: "apply_ops True rec_trades (new_OrderBook 4, [])
       [OpAddLimit 1 0 Sell 100 10, OpAddLimit 2 0 Sell 101 10] = Some (book_two_asks, ts0)"
    by (simp add: book_two_asks_def)
  have "match_order True rec_trades book_two_asks 3 1 Buy 105 15 False [] \<noteq> None"
    by code_simp
  then obtain b' r' n' ts' where
    mo: "match_order True rec_trades book_two_asks 3 1 Buy 105 15 False []
         = Some (b', r', n', ts')"
    by auto
  have "map_option (\<lambda>(b, r, n, ts). (map Trade.price ts, n))
          (match_order True rec_trades book_two_asks 3 1 Buy 105 15 False [])
        = Some ([100, 101], 2)"
    by code_simp
  with mo have pr: "map Trade.price ts' = [100, 101]" "n' = 2" by simp_all
  from trade_price_and_side [OF reach mo] have
    "match_order True rec_trades book_two_asks 3 1 Buy 105 15 False [] = Some (b', r', n', ts')
     \<and> map Trade.price ts' = [100, 101] \<and> n' = 2
     \<and> (\<forall>t\<in>set ts'. taker_side t = Buy
          \<and> (\<exists>i maker. order_map book_two_asks (maker_order_id t) = Some i
                \<and> pool_at (order_pool book_two_asks) i = Some maker
                \<and> Trade.price t = Order.price maker
                \<and> Order.side maker = opposite Buy))"
    using mo pr by simp
  then show ?thesis by (intro exI)
qed

section \<open>Price-time priority\<close>



end
